theory Spec2Isabelle
  imports Main
begin

section \<open>SimpleFS: the data model\<close>

text \<open>
  The C program keeps a tree of \<open>node_t\<close> structures linked by pointers: every node
  has a \<open>parent\<close> pointer, and a directory owns a hash table from names to child
  pointers. The model keeps the pointers: a heap is a list of cells, an address is an index
  into it, a freed or never allocated cell holds \<open>None\<close>, and \<open>NULL\<close> is the
  \<open>None\<close> of \<open>addr option\<close>.
\<close>

type_synonym addr = nat

text \<open>The two values of the \<open>type\<close> field (the enumeration of \<open>simplefs.h\<close>).\<close>

datatype kind = Dir | File

text \<open>
  Modelled from the spec: the per-directory associative container (\<open>hashtable_*\<close>) is
  not part of the sources. It maps a name to a child pointer, \<open>set\<close> overwrites,
  and it supports get, set, remove, size and a cursor-based iteration. Here it is an
  association list; the cursor of \<open>hashtable_iterate\<close> is a position in that list.
\<close>

type_synonym hashtable = "(string \<times> addr) list"

text \<open>The \<open>payload\<close> union: \<open>dirhash\<close> for a directory, \<open>content\<close> for a file.\<close>

datatype payload = Dirhash hashtable | Content string

record node =
  node_name :: string
  node_depth :: nat
  node_parent :: "addr option"
  node_type :: kind
  node_payload :: payload

type_synonym heap = "node option list"

text \<open>
  What the C program does on a bad pointer is undefined; the model makes it a value.
  \<open>UseAfterFree\<close> is a read in a buffer that was passed to \<open>free\<close>. \<open>OutOfFuel\<close> is not
  a behaviour of the program: it is the answer of a fuelled loop whose fuel ran out.
\<close>

datatype fault = NullDeref | BadPtr | BadUnion | UseAfterFree | OutOfFuel

text \<open>
  The limits \<open>MAX_NODES\<close>, \<open>MAX_NAMELENGHT\<close> and \<open>MAX_DEPTH\<close> are macros of
  \<open>simplefs.h\<close>, which is not part of the sources: they are parameters of the model.
\<close>

record limits =
  MAX_NODES :: nat
  MAX_NAMELENGHT :: nat
  MAX_DEPTH :: nat

section \<open>Memory\<close>

definition fbind :: "fault + 'a \<Rightarrow> ('a \<Rightarrow> fault + 'b) \<Rightarrow> fault + 'b" where
  "fbind m f = (case m of Inl e \<Rightarrow> Inl e | Inr x \<Rightarrow> f x)"

definition lookup :: "heap \<Rightarrow> addr \<Rightarrow> node option" where
  "lookup h a = (if a < length h then h ! a else None)"

text \<open>Reading through a pointer that is known not to be \<open>NULL\<close>.\<close>

definition load :: "heap \<Rightarrow> addr \<Rightarrow> fault + node" where
  "load h a = (case lookup h a of None \<Rightarrow> Inl BadPtr | Some n \<Rightarrow> Inr n)"

text \<open>Following a pointer that may be \<open>NULL\<close>.\<close>

definition with_ptr :: "addr option \<Rightarrow> (addr \<Rightarrow> fault + 'a) \<Rightarrow> fault + 'a" where
  "with_ptr p f = (case p of None \<Rightarrow> Inl NullDeref | Some a \<Rightarrow> f a)"

definition store :: "heap \<Rightarrow> addr \<Rightarrow> node \<Rightarrow> heap" where
  "store h a n = h[a := Some n]"

text \<open>\<open>malloc_or_die\<close> followed by the initialisation of the fields: a new last cell.\<close>

definition malloc_or_die :: "heap \<Rightarrow> node \<Rightarrow> addr \<times> heap" where
  "malloc_or_die h n = (length h, h @ [Some n])"

definition free :: "heap \<Rightarrow> addr \<Rightarrow> heap" where
  "free h a = h[a := None]"

text \<open>The two members of the union; reading the member that was not written is a fault.\<close>

definition get_dirhash :: "node \<Rightarrow> fault + hashtable" where
  "get_dirhash n = (case node_payload n of Dirhash t \<Rightarrow> Inr t | Content c \<Rightarrow> Inl BadUnion)"

definition get_content :: "node \<Rightarrow> fault + string" where
  "get_content n = (case node_payload n of Content c \<Rightarrow> Inr c | Dirhash t \<Rightarrow> Inl BadUnion)"

text \<open>
  A \<open>char *\<close> argument that is read after the tree was changed. The content of a file is
  kept in its node, so such a pointer is either \<open>Own s\<close>, a pointer to a buffer that is no
  file's content buffer (a token of the command line, a literal) and holds \<open>s\<close>, or
  \<open>Into a k\<close>, a pointer \<open>k\<close> bytes into the content buffer of the file at \<open>a\<close>.
  \<open>Into a 0\<close> is the pointer that \<open>fs_get_file_content\<close> returns for \<open>a\<close>.
\<close>

datatype char_ptr = Own string | Into addr nat

text \<open>The string that a pointer points to, in a heap where every buffer is still allocated.\<close>

definition string_at :: "heap \<Rightarrow> char_ptr \<Rightarrow> fault + string" where
  "string_at h p =
     (case p of
        Own s \<Rightarrow> Inr s
      | Into a k \<Rightarrow>
          fbind (load h a) (\<lambda>n.
          fbind (get_content n) (\<lambda>c.
            if k \<le> length c then Inr (drop k c) else Inl BadPtr)))"

text \<open>
  Modelled from the spec: \<open>my_strdup\<close> is called in \<open>simplefs.c\<close> and defined in no file of
  the sources; a file holds an owned content string, so \<open>my_strdup\<close> returns a fresh copy
  of the string at its argument. \<open>released\<close> is the node whose content buffer the caller has
  passed to \<open>free\<close> before the call: a pointer into that buffer is dangling, and reading
  the string there is a fault.
\<close>

definition my_strdup :: "heap \<Rightarrow> addr \<Rightarrow> char_ptr \<Rightarrow> fault + string" where
  "my_strdup h released p =
     (case p of
        Own s \<Rightarrow> Inr s
      | Into a k \<Rightarrow> if a = released then Inl UseAfterFree else string_at h p)"

section \<open>The directory index\<close>

definition hashtable_create :: hashtable where
  "hashtable_create = []"

definition hashtable_get :: "hashtable \<Rightarrow> string \<Rightarrow> addr option" where
  "hashtable_get t k = map_of t k"

definition hashtable_get_size :: "hashtable \<Rightarrow> nat" where
  "hashtable_get_size t = length t"

fun hashtable_set :: "hashtable \<Rightarrow> string \<Rightarrow> addr \<Rightarrow> hashtable" where
  "hashtable_set [] k v = [(k, v)]"
| "hashtable_set ((k', v') # t) k v =
     (if k' = k then (k, v) # t else (k', v') # hashtable_set t k v)"

definition hashtable_remove :: "hashtable \<Rightarrow> string \<Rightarrow> hashtable" where
  "hashtable_remove t k = filter (\<lambda>e. fst e \<noteq> k) t"

definition hashtable_iterate :: "hashtable \<Rightarrow> nat \<Rightarrow> addr option \<times> nat" where
  "hashtable_iterate t state =
     (if state < length t then (Some (snd (t ! state)), Suc state) else (None, state))"

section \<open>The namespace engine (simplefs.c)\<close>

text \<open>
  \<open>fs_free_file\<close>: release the content, remove the entry from the parent's table
  (through \<open>file->parent\<close>, which is not checked), release the node.
\<close>

definition fs_free_file :: "heap \<Rightarrow> addr \<Rightarrow> fault + heap" where
  "fs_free_file h file =
     fbind (load h file) (\<lambda>f.
     fbind (get_content f) (\<lambda>c.
     with_ptr (node_parent f) (\<lambda>pa.
     fbind (load h pa) (\<lambda>p.
     fbind (get_dirhash p) (\<lambda>pt.
       Inr (free (store h pa (p\<lparr>node_payload := Dirhash (hashtable_remove pt (node_name f))\<rparr>))
                 file))))))"

text \<open>\<open>fs_free_dir\<close>: only an empty directory is released; otherwise \<open>-1\<close>.\<close>

definition fs_free_dir :: "heap \<Rightarrow> addr \<Rightarrow> fault + (int \<times> heap)" where
  "fs_free_dir h dir =
     fbind (load h dir) (\<lambda>d.
     fbind (get_dirhash d) (\<lambda>t.
       if hashtable_get_size t = 0 then
         with_ptr (node_parent d) (\<lambda>pa.
         fbind (load h pa) (\<lambda>p.
         fbind (get_dirhash p) (\<lambda>pt.
           Inr (0, free (store h pa
                  (p\<lparr>node_payload := Dirhash (hashtable_remove pt (node_name d))\<rparr>)) dir))))
       else Inr (- 1, h)))"

definition fs_get_type :: "heap \<Rightarrow> addr \<Rightarrow> fault + kind" where
  "fs_get_type h node = fbind (load h node) (\<lambda>n. Inr (node_type n))"

text \<open>\<open>fs_get_file_content\<close>: \<open>None\<close> is the \<open>NULL\<close> returned for a node that is not a file.\<close>

definition fs_get_file_content :: "heap \<Rightarrow> addr \<Rightarrow> fault + string option" where
  "fs_get_file_content h node =
     fbind (load h node) (\<lambda>n.
       if node_type n \<noteq> File then Inr None
       else fbind (get_content n) (\<lambda>c. Inr (Some c)))"

text \<open>
  \<open>fs_set_file_content\<close>: the old content buffer of \<open>node\<close> is passed to \<open>free\<close> first, and
  \<open>new_content\<close> is duplicated afterwards, with that buffer gone.
\<close>

definition fs_set_file_content :: "heap \<Rightarrow> addr \<Rightarrow> char_ptr \<Rightarrow> fault + (int \<times> heap)" where
  "fs_set_file_content h node new_content =
     fbind (fs_get_type h node) (\<lambda>ty.
       if ty \<noteq> File then Inr (- 1, h)
       else fbind (load h node) (\<lambda>n.
            fbind (get_content n) (\<lambda>old.
            fbind (my_strdup h node new_content) (\<lambda>c.
              Inr (0, store h node (n\<lparr>node_payload := Content c\<rparr>))))))"

definition fs_find_in_dir :: "heap \<Rightarrow> addr \<Rightarrow> string \<Rightarrow> fault + addr option" where
  "fs_find_in_dir h parent key =
     fbind (load h parent) (\<lambda>p.
     fbind (get_dirhash p) (\<lambda>t. Inr (hashtable_get t key)))"

definition fs_create :: "limits \<Rightarrow> heap \<Rightarrow> addr \<Rightarrow> string \<Rightarrow> kind \<Rightarrow> fault + (int \<times> heap)" where
  "fs_create lim h parent key type =
     fbind (load h parent) (\<lambda>p.
     fbind (get_dirhash p) (\<lambda>t.
       if hashtable_get t key \<noteq> None
          \<or> hashtable_get_size t \<ge> MAX_NODES lim
          \<or> length key > MAX_NAMELENGHT lim
          \<or> node_depth p \<ge> MAX_DEPTH lim
       then Inr (- 1, h)
       else
         let (child, h1) = malloc_or_die h
               \<lparr>node_name = key, node_depth = node_depth p + 1, node_parent = Some parent,
                node_type = type,
                node_payload = (if type = Dir then Dirhash hashtable_create else Content [])\<rparr>
         in Inr (0, store h1 parent (p\<lparr>node_payload := Dirhash (hashtable_set t key child)\<rparr>))))"

definition fs_delete :: "heap \<Rightarrow> addr \<Rightarrow> fault + (int \<times> heap)" where
  "fs_delete h node =
     fbind (load h node) (\<lambda>n.
       if node_type n = Dir then fs_free_dir h node
       else fbind (fs_free_file h node) (\<lambda>h'. Inr (0, h')))"

definition fs_new_root :: "heap \<Rightarrow> addr \<times> heap" where
  "fs_new_root h = malloc_or_die h
     \<lparr>node_name = [], node_depth = 1, node_parent = None, node_type = Dir,
      node_payload = Dirhash hashtable_create\<rparr>"

text \<open>
  \<open>fs_get_path\<close>: a \<open>do ... while (node->parent != NULL)\<close> loop. The body prepends
  \<open>/\<close> and the node's name and moves to the parent; the test then reads the
  \<open>parent\<close> field of the node just moved to. The loop follows pointers of the heap,
  so the model gives it fuel.
\<close>

fun fs_get_path_loop :: "nat \<Rightarrow> heap \<Rightarrow> addr option \<Rightarrow> string \<Rightarrow> fault + string" where
  "fs_get_path_loop 0 h node path = Inl OutOfFuel"
| "fs_get_path_loop (Suc fuel) h node path =
     with_ptr node (\<lambda>a.
     fbind (load h a) (\<lambda>n.
       let path' = CHR ''/'' # node_name n @ path;
           node' = node_parent n
       in with_ptr node' (\<lambda>a'.
          fbind (load h a') (\<lambda>n'.
            if node_parent n' \<noteq> None then fs_get_path_loop fuel h node' path'
            else Inr path'))))"

definition fs_get_path :: "nat \<Rightarrow> heap \<Rightarrow> addr \<Rightarrow> fault + string" where
  "fs_get_path fuel h node = fs_get_path_loop fuel h (Some node) []"

text \<open>
  \<open>fs_delete_r\<close>: for a directory, a loop that takes the first element of the table
  (the cursor is reset to 0 after each deletion) and deletes it recursively, until the
  table is empty; then \<open>fs_free_dir\<close>, whose result is ignored. Both the recursion and
  the loop depend on the heap, so both have fuel.
\<close>

fun fs_delete_r :: "nat \<Rightarrow> heap \<Rightarrow> addr \<Rightarrow> fault + heap"
  and fs_delete_r_loop :: "nat \<Rightarrow> heap \<Rightarrow> addr \<Rightarrow> fault + heap" where
  "fs_delete_r 0 h node = Inl OutOfFuel"
| "fs_delete_r (Suc fuel) h node =
     fbind (load h node) (\<lambda>n.
       if node_type n = Dir then
         fbind (get_dirhash n) (\<lambda>t.
         fbind (if hashtable_get_size t > 0 then fs_delete_r_loop fuel h node else Inr h) (\<lambda>h'.
         fbind (fs_free_dir h' node) (\<lambda>r. Inr (snd r))))
       else fs_free_file h node)"
| "fs_delete_r_loop 0 h node = Inl OutOfFuel"
| "fs_delete_r_loop (Suc fuel) h node =
     fbind (load h node) (\<lambda>n.
     fbind (get_dirhash n) (\<lambda>t.
       case fst (hashtable_iterate t 0) of
         None \<Rightarrow> Inr h
       | Some child \<Rightarrow>
           fbind (fs_delete_r fuel h child) (\<lambda>h'. fs_delete_r_loop fuel h' node)))"

text \<open>
  \<open>fs_find_r\<close>: the result array is a list of node pointers (\<open>*num\<close> is its length);
  the loop walks the table of \<open>node\<close> with the cursor \<open>state\<close>.
\<close>

fun fs_find_r :: "nat \<Rightarrow> heap \<Rightarrow> addr \<Rightarrow> string \<Rightarrow> addr list \<Rightarrow> fault + addr list"
  and fs_find_r_loop ::
    "nat \<Rightarrow> heap \<Rightarrow> addr \<Rightarrow> string \<Rightarrow> nat \<Rightarrow> addr list \<Rightarrow> fault + addr list" where
  "fs_find_r 0 h node name array = Inl OutOfFuel"
| "fs_find_r (Suc fuel) h node name array = fs_find_r_loop fuel h node name 0 array"
| "fs_find_r_loop 0 h node name state array = Inl OutOfFuel"
| "fs_find_r_loop (Suc fuel) h node name state array =
     fbind (load h node) (\<lambda>n.
     fbind (get_dirhash n) (\<lambda>t.
       case hashtable_iterate t state of
         (None, state') \<Rightarrow> Inr array
       | (Some child, state') \<Rightarrow>
           fbind (load h child) (\<lambda>c.
             let array1 = (if node_name c = name then array @ [child] else array)
             in fbind (if node_type c = Dir then fs_find_r fuel h child name array1
                       else Inr array1) (\<lambda>array2.
                  fs_find_r_loop fuel h node name state' array2))))"

section \<open>The path resolver (main.c)\<close>

text \<open>
  The C library's \<open>strtok\<close>, with its hidden position made explicit: \<open>olds\<close> is the
  rest of the string being split. The call skips leading delimiters; if nothing is left it
  returns \<open>NULL\<close>; otherwise the token runs to the next delimiter, which is consumed.
\<close>

definition strtok :: "string option \<Rightarrow> string \<Rightarrow> string \<Rightarrow> string option \<times> string" where
  "strtok str delim olds =
     (let s = dropWhile (\<lambda>c. c \<in> set delim) (case str of None \<Rightarrow> olds | Some s0 \<Rightarrow> s0)
      in if s = [] then (None, [])
         else (Some (takeWhile (\<lambda>c. c \<notin> set delim) s),
               drop 1 (dropWhile (\<lambda>c. c \<notin> set delim) s)))"

text \<open>The delimiter strings \<open>" /\n\r"\<close> and \<open>"/\n\r"\<close> of \<open>enter_path\<close>.\<close>

definition delim_first :: string where
  "delim_first = [CHR '' '', CHR ''/'', CHR 0x0A, CHR 0x0D]"

definition delim_next :: string where
  "delim_next = [CHR ''/'', CHR 0x0A, CHR 0x0D]"

text \<open>
  The \<open>while (cur_token)\<close> loop of \<open>enter_path\<close>. \<open>capture\<close> says that
  \<open>new_name\<close> is not \<open>NULL\<close>; the result is the returned pointer and the value
  written to \<open>*new_name\<close>, if any.
\<close>

function enter_path_loop ::
  "heap \<Rightarrow> bool \<Rightarrow> addr \<Rightarrow> string option \<Rightarrow> string option \<Rightarrow> string
     \<Rightarrow> fault + (addr option \<times> string option)" where
  "enter_path_loop h capture node None next_token olds = Inr (Some node, None)"
| "enter_path_loop h capture node (Some cur_token) next_token olds =
     fbind (fs_get_type h node) (\<lambda>ty.
       if ty = Dir then
         fbind (fs_find_in_dir h node cur_token) (\<lambda>tmp.
           case tmp of
             Some found \<Rightarrow>
               enter_path_loop h capture found next_token
                 (fst (strtok None delim_next olds)) (snd (strtok None delim_next olds))
           | None \<Rightarrow>
               if capture \<and> next_token = None then Inr (Some node, Some cur_token)
               else Inr (None, None))
       else Inr (None, None))"
  by pat_completeness auto
termination
proof (relation "measure (\<lambda>(h, capture, node, cur, nxt, olds).
          (case cur of None \<Rightarrow> 0 | Some c \<Rightarrow> 1) + (case nxt of None \<Rightarrow> 0 | Some c \<Rightarrow> 1)
          + length olds)")
  show "wf (measure (\<lambda>(h, capture, node, cur, nxt, olds).
          (case cur of None \<Rightarrow> 0 | Some c \<Rightarrow> (1::nat)) + (case nxt of None \<Rightarrow> 0 | Some c \<Rightarrow> 1)
          + length olds))"
    by simp
next
  fix h :: heap and capture :: bool and node :: addr and cur_token :: string
    and next_token :: "string option" and olds :: string and x :: kind
    and xa :: "addr option" and x2 :: addr
  let ?s = "dropWhile (\<lambda>c. c \<in> set delim_next) olds"
  have a: "length (dropWhile (\<lambda>c. c \<notin> set delim_next) ?s) \<le> length ?s"
    by (rule length_dropWhile_le)
  have b: "length ?s \<le> length olds"
    by (rule length_dropWhile_le)
  have "(case fst (strtok None delim_next olds) of None \<Rightarrow> 0 | Some c \<Rightarrow> (1::nat))
          + length (snd (strtok None delim_next olds)) < 1 + length olds"
  proof (cases "?s = []")
    case True
    then show ?thesis by (simp add: strtok_def)
  next
    case False
    then have c: "0 < length ?s" by simp
    from a b c have "length (dropWhile (\<lambda>c. c \<notin> set delim_next) ?s) - 1 < length olds"
      by arith
    with False show ?thesis by (simp add: strtok_def Let_def)
  qed
  then show "((h, capture, x2, next_token, fst (strtok None delim_next olds),
                snd (strtok None delim_next olds)),
              (h, capture, node, Some cur_token, next_token, olds))
             \<in> measure (\<lambda>(h, capture, node, cur, nxt, olds).
                  (case cur of None \<Rightarrow> 0 | Some c \<Rightarrow> 1) + (case nxt of None \<Rightarrow> 0 | Some c \<Rightarrow> 1)
                  + length olds)"
    by (cases "strtok None delim_next olds") (auto split: option.splits)
qed

definition enter_path ::
  "heap \<Rightarrow> addr \<Rightarrow> string option \<Rightarrow> bool \<Rightarrow> string \<Rightarrow> fault + (addr option \<times> string option)"
  where
  "enter_path h node path capture olds =
     (let (cur_token, olds1) = strtok path delim_first olds;
          (next_token, olds2) = strtok None delim_next olds1
      in if cur_token = None then Inr (None, None)
         else enter_path_loop h capture node cur_token next_token olds2)"

section \<open>The command handlers (main.c)\<close>

text \<open>
  A handler is called after \<open>main\<close> has cut the command word off the line with
  \<open>strtok\<close>; \<open>olds\<close> is the rest of the line. What a handler prints is its response.
  \<open>do_create\<close>, \<open>do_write\<close> and \<open>do_delete\<close> are the handlers that write to the
  tree; \<open>do_read\<close> only reads it, and so does \<open>do_find\<close>, which is left out here.
\<close>

datatype response = RES_OK | RES_FAIL | RES_READ string | RES_WRITE int

text \<open>The delimiter strings \<open>" \n\r"\<close> and \<open>"\"\n\r"\<close> of \<open>do_write\<close>.\<close>

definition delim_blank :: string where
  "delim_blank = [CHR '' '', CHR 0x0A, CHR 0x0D]"

definition delim_quote :: string where
  "delim_quote = [CHR 0x22, CHR 0x0A, CHR 0x0D]"

definition do_create :: "limits \<Rightarrow> heap \<Rightarrow> addr \<Rightarrow> kind \<Rightarrow> string \<Rightarrow> fault + (response \<times> heap)" where
  "do_create lim h node type olds =
     fbind (enter_path h node None True olds) (\<lambda>r.
       case snd r of
         None \<Rightarrow> Inr (RES_FAIL, h)
       | Some name \<Rightarrow>
           with_ptr (fst r) (\<lambda>parent.
           fbind (fs_create lim h parent name type) (\<lambda>res.
             Inr (if fst res = 0 then RES_OK else RES_FAIL, snd res))))"

definition do_read :: "heap \<Rightarrow> addr \<Rightarrow> string \<Rightarrow> fault + response" where
  "do_read h node olds =
     fbind (enter_path h node None False olds) (\<lambda>r.
       case fst r of
         None \<Rightarrow> Inr RES_FAIL
       | Some found \<Rightarrow>
           fbind (fs_get_file_content h found) (\<lambda>content.
             case content of None \<Rightarrow> Inr RES_FAIL | Some c \<Rightarrow> Inr (RES_READ c)))"

text \<open>
  \<open>do_write\<close>: the content is a token of the command line, a buffer of \<open>main\<close> that is no
  file's content buffer.
\<close>

definition do_write :: "heap \<Rightarrow> addr \<Rightarrow> string \<Rightarrow> fault + (response \<times> heap)" where
  "do_write h node olds =
     (let (path, olds1) = strtok None delim_blank olds;
          (new_content, olds2) = strtok None delim_quote olds1
      in fbind (enter_path h node path False olds2) (\<lambda>r.
           case (fst r, new_content) of
             (Some found, Some c) \<Rightarrow>
               fbind (fs_set_file_content h found (Own c)) (\<lambda>res.
                 Inr (if fst res = 0 then RES_WRITE (int (length c)) else RES_FAIL, snd res))
           | _ \<Rightarrow> Inr (RES_FAIL, h)))"

definition do_delete :: "nat \<Rightarrow> heap \<Rightarrow> addr \<Rightarrow> bool \<Rightarrow> string \<Rightarrow> fault + (response \<times> heap)" where
  "do_delete fuel h node recursive olds =
     fbind (enter_path h node None False olds) (\<lambda>r.
       case fst r of
         None \<Rightarrow> Inr (RES_FAIL, h)
       | Some found \<Rightarrow>
           if recursive then fbind (fs_delete_r fuel h found) (\<lambda>h'. Inr (RES_OK, h'))
           else fbind (fs_delete h found) (\<lambda>res.
                  Inr (if fst res = 0 then RES_OK else RES_FAIL, snd res)))"

section \<open>Trees in the heap\<close>

text \<open>
  The invariants of the data model, as a predicate that can be evaluated: the tag of every
  node agrees with its payload; the names in a table are distinct; every entry of the
  table of \<open>a\<close> points to an allocated node whose \<open>parent\<close> is \<open>a\<close>, whose name
  is the entry's key and whose depth is one more; every node but the root has a parent,
  in whose table it is found under its own name; the root has no parent and depth 1.
\<close>

definition entry_ok :: "heap \<Rightarrow> addr \<Rightarrow> node \<Rightarrow> string \<times> addr \<Rightarrow> bool" where
  "entry_ok h a n e =
     (case lookup h (snd e) of
        None \<Rightarrow> False
      | Some c \<Rightarrow> node_parent c = Some a \<and> node_name c = fst e
                  \<and> node_depth c = node_depth n + 1)"

definition node_ok :: "heap \<Rightarrow> addr \<Rightarrow> addr \<Rightarrow> node \<Rightarrow> bool" where
  "node_ok h root a n =
     ((case node_payload n of
         Dirhash t \<Rightarrow> node_type n = Dir \<and> distinct (map fst t) \<and> (\<forall>e \<in> set t. entry_ok h a n e)
       | Content c \<Rightarrow> node_type n = File)
      \<and> (case node_parent n of
           None \<Rightarrow> a = root
         | Some pa \<Rightarrow>
             a \<noteq> root \<and>
             (case lookup h pa of
                None \<Rightarrow> False
              | Some p \<Rightarrow>
                  (case node_payload p of
                     Dirhash pt \<Rightarrow> hashtable_get pt (node_name n) = Some a
                   | Content c \<Rightarrow> False))))"

definition well_formed :: "heap \<Rightarrow> addr \<Rightarrow> bool" where
  "well_formed h root =
     ((case lookup h root of
         None \<Rightarrow> False
       | Some r \<Rightarrow> node_parent r = None \<and> node_type r = Dir \<and> node_depth r = 1)
      \<and> (\<forall>a < length h. case lookup h a of None \<Rightarrow> True | Some n \<Rightarrow> node_ok h root a n))"

text \<open>The nodes below \<open>d\<close>: what the tables reach from \<open>d\<close> in one or more steps.\<close>

inductive_set descendants :: "heap \<Rightarrow> addr \<Rightarrow> addr set" for h :: heap and d :: addr where
  child: "lookup h d = Some n \<Longrightarrow> node_payload n = Dirhash t \<Longrightarrow> (k, c) \<in> set t
            \<Longrightarrow> c \<in> descendants h d"
| below: "x \<in> descendants h d \<Longrightarrow> lookup h x = Some n \<Longrightarrow> node_payload n = Dirhash t
            \<Longrightarrow> (k, c) \<in> set t \<Longrightarrow> c \<in> descendants h d"

text \<open>
  \<open>subtree_removed h x h'\<close>: the heap \<open>h'\<close> is \<open>h\<close> without \<open>x\<close> and the nodes
  below it, with the name of \<open>x\<close> taken out of the table of its parent and every other cell
  as it was. \<open>children_removed h x h'\<close>: \<open>h'\<close> is \<open>h\<close> without the nodes below
  \<open>x\<close>, with the table of \<open>x\<close> empty.
\<close>

definition subtree_removed :: "heap \<Rightarrow> addr \<Rightarrow> heap \<Rightarrow> bool" where
  "subtree_removed h x h' =
     (length h' = length h \<and>
      (\<exists>xn pa p pt.
         lookup h x = Some xn \<and> node_parent xn = Some pa \<and> lookup h pa = Some p
         \<and> node_payload p = Dirhash pt
         \<and> lookup h' pa = Some (p\<lparr>node_payload := Dirhash (hashtable_remove pt (node_name xn))\<rparr>)
         \<and> (\<forall>a \<in> insert x (descendants h x). lookup h' a = None)
         \<and> (\<forall>a. a \<notin> insert x (descendants h x) \<and> a \<noteq> pa \<longrightarrow> lookup h' a = lookup h a)))"

definition children_removed :: "heap \<Rightarrow> addr \<Rightarrow> heap \<Rightarrow> bool" where
  "children_removed h x h' =
     (length h' = length h \<and>
      (\<exists>xn. lookup h x = Some xn \<and> lookup h' x = Some (xn\<lparr>node_payload := Dirhash []\<rparr>))
      \<and> (\<forall>a \<in> descendants h x. lookup h' a = None)
      \<and> (\<forall>a. a \<notin> descendants h x \<and> a \<noteq> x \<longrightarrow> lookup h' a = lookup h a))"

text \<open>The nodes of a set that carry a given name.\<close>

definition named :: "heap \<Rightarrow> string \<Rightarrow> addr set \<Rightarrow> addr set" where
  "named h name S = {x \<in> S. \<exists>xn. lookup h x = Some xn \<and> node_name xn = name}"

text \<open>
  The components of a path as \<open>enter_path\<close> reads them: the first token is cut with
  the delimiters \<open>" /\n\r"\<close>, every further one with \<open>"/\n\r"\<close>.
\<close>

function tokens_next :: "string \<Rightarrow> string list" where
  "tokens_next olds =
     (case fst (strtok None delim_next olds) of
        None \<Rightarrow> []
      | Some t \<Rightarrow> t # tokens_next (snd (strtok None delim_next olds)))"
  by pat_completeness auto
termination
proof (relation "measure length")
  show "wf (measure (length :: string \<Rightarrow> nat))" by simp
next
  fix olds :: string and x2 :: string
  assume tok: "fst (strtok None delim_next olds) = Some x2"
  let ?s = "dropWhile (\<lambda>c. c \<in> set delim_next) olds"
  have a: "length (dropWhile (\<lambda>c. c \<notin> set delim_next) ?s) \<le> length ?s"
    by (rule length_dropWhile_le)
  have b: "length ?s \<le> length olds"
    by (rule length_dropWhile_le)
  from tok have ne: "?s \<noteq> []"
    by (auto simp: strtok_def Let_def split: if_splits)
  then have c: "0 < length ?s" by simp
  from a b c have "length (dropWhile (\<lambda>c. c \<notin> set delim_next) ?s) - 1 < length olds"
    by arith
  moreover from ne have "snd (strtok None delim_next olds)
      = drop 1 (dropWhile (\<lambda>c. c \<notin> set delim_next) ?s)"
    by (simp add: strtok_def Let_def del: dropWhile_eq_Nil_conv)
  ultimately show "(snd (strtok None delim_next olds), olds) \<in> measure length"
    by simp
qed

definition path_tokens :: "string option \<Rightarrow> string \<Rightarrow> string list" where
  "path_tokens path olds =
     (case fst (strtok path delim_first olds) of
        None \<Rightarrow> []
      | Some t \<Rightarrow> t # tokens_next (snd (strtok path delim_first olds)))"

text \<open>
  Resolution as the specification words it: follow the components one by one, each looked
  up in the table of the current node, which must be a directory.
\<close>

fun resolve :: "heap \<Rightarrow> addr \<Rightarrow> string list \<Rightarrow> addr option" where
  "resolve h d [] = Some d"
| "resolve h d (t # ts) =
     (case lookup h d of
        None \<Rightarrow> None
      | Some n \<Rightarrow>
          if node_type n = Dir then
            (case node_payload n of
               Dirhash tbl \<Rightarrow>
                 (case hashtable_get tbl t of None \<Rightarrow> None | Some c \<Rightarrow> resolve h c ts)
             | Content c \<Rightarrow> None)
          else None)"

text \<open>
  The loop of \<open>enter_path\<close> over a list of tokens already cut: the same steps, with the
  tokens to come in a list instead of the \<open>strtok\<close> position.
\<close>

fun enter_tokens ::
  "heap \<Rightarrow> bool \<Rightarrow> addr \<Rightarrow> string list \<Rightarrow> fault + (addr option \<times> string option)" where
  "enter_tokens h capture node [] = Inr (Some node, None)"
| "enter_tokens h capture node (t # ts) =
     fbind (fs_get_type h node) (\<lambda>ty.
       if ty = Dir then
         fbind (fs_find_in_dir h node t) (\<lambda>tmp.
           case tmp of
             Some found \<Rightarrow> enter_tokens h capture found ts
           | None \<Rightarrow> if capture \<and> ts = [] then Inr (Some node, Some t) else Inr (None, None))
       else Inr (None, None))"

text \<open>
  The names on the way from the root down to \<open>a\<close>, read off the \<open>parent\<close> pointers
  (the root, which has no parent, contributes nothing); \<open>k\<close> bounds the number of steps.
\<close>

fun names_to :: "nat \<Rightarrow> heap \<Rightarrow> addr \<Rightarrow> string list" where
  "names_to 0 h a = []"
| "names_to (Suc k) h a =
     (case lookup h a of
        None \<Rightarrow> []
      | Some n \<Rightarrow>
          (case node_parent n of
             None \<Rightarrow> []
           | Some pa \<Rightarrow> names_to k h pa @ [node_name n]))"

definition path_names :: "heap \<Rightarrow> addr \<Rightarrow> string list" where
  "path_names h a = (case lookup h a of None \<Rightarrow> [] | Some n \<Rightarrow> names_to (node_depth n) h a)"

text \<open>
  A list of names that the tokenizer of \<open>enter_path\<close> reads back as it is: no name is
  empty, none holds \<open>/\<close>, a newline or a carriage return, and the first holds no
  space either.
\<close>

definition clean_names :: "string list \<Rightarrow> bool" where
  "clean_names ns =
     (case ns of
        [] \<Rightarrow> True
      | n1 # rest \<Rightarrow>
          n1 \<noteq> [] \<and> (\<forall>c \<in> set n1. c \<notin> set delim_first)
          \<and> (\<forall>x \<in> set rest. x \<noteq> [] \<and> (\<forall>c \<in> set x. c \<notin> set delim_next)))"

text \<open>The path string of a list of names: each name after a \<open>/\<close>.\<close>

definition render_path :: "string list \<Rightarrow> string" where
  "render_path ns = concat (map (\<lambda>nm. CHR ''/'' # nm) ns)"

section \<open>Example trees\<close>

definition example_limits :: limits where
  "example_limits = \<lparr>MAX_NODES = 2, MAX_NAMELENGHT = 5, MAX_DEPTH = 3\<rparr>"

text \<open>The heap right after \<open>fs_new_root\<close>: the root alone, at address 0.\<close>

definition root_only :: heap where
  "root_only =
     [Some \<lparr>node_name = [], node_depth = 1, node_parent = None, node_type = Dir,
            node_payload = Dirhash []\<rparr>]"

text \<open>The root with one empty file \<open>a\<close> (at 1), as \<open>fs_create\<close> builds it from \<open>root_only\<close>.\<close>

definition file_tree :: heap where
  "file_tree =
     [Some \<lparr>node_name = [], node_depth = 1, node_parent = None, node_type = Dir,
            node_payload = Dirhash [(''a'', 1)]\<rparr>,
      Some \<lparr>node_name = ''a'', node_depth = 2, node_parent = Some 0, node_type = File,
            node_payload = Content []\<rparr>]"

text \<open>The tree \<open>/log\<close> (a directory, at 1) with \<open>/log/log\<close> (a file, at 2) and \<open>/f\<close> (a file, at 3).\<close>

definition log_tree :: heap where
  "log_tree =
     [Some \<lparr>node_name = [], node_depth = 1, node_parent = None, node_type = Dir,
            node_payload = Dirhash [(''log'', 1), (''f'', 3)]\<rparr>,
      Some \<lparr>node_name = ''log'', node_depth = 2, node_parent = Some 0, node_type = Dir,
            node_payload = Dirhash [(''log'', 2)]\<rparr>,
      Some \<lparr>node_name = ''log'', node_depth = 3, node_parent = Some 1, node_type = File,
            node_payload = Content ''hello''\<rparr>,
      Some \<lparr>node_name = ''f'', node_depth = 2, node_parent = Some 0, node_type = File,
            node_payload = Content []\<rparr>]"

text \<open>
  The root with one file named \<open>a/b\<close>, as \<open>fs_create\<close> builds it; then the same
  with a file named \<open>a b\<close>, and with a file whose name is empty.
\<close>

definition slash_tree :: heap where
  "slash_tree =
     [Some \<lparr>node_name = [], node_depth = 1, node_parent = None, node_type = Dir,
            node_payload = Dirhash [(''a/b'', 1)]\<rparr>,
      Some \<lparr>node_name = ''a/b'', node_depth = 2, node_parent = Some 0, node_type = File,
            node_payload = Content []\<rparr>]"

definition space_tree :: heap where
  "space_tree =
     [Some \<lparr>node_name = [], node_depth = 1, node_parent = None, node_type = Dir,
            node_payload = Dirhash [(''a b'', 1)]\<rparr>,
      Some \<lparr>node_name = ''a b'', node_depth = 2, node_parent = Some 0, node_type = File,
            node_payload = Content []\<rparr>]"

definition noname_tree :: heap where
  "noname_tree =
     [Some \<lparr>node_name = [], node_depth = 1, node_parent = None, node_type = Dir,
            node_payload = Dirhash [([], 1)]\<rparr>,
      Some \<lparr>node_name = [], node_depth = 2, node_parent = Some 0, node_type = File,
            node_payload = Content []\<rparr>]"

text \<open>
  A tree in which the file \<open>a/b\<close> of the root (at 3) has the path of the file \<open>b\<close> (at
  2) of the directory \<open>a\<close> (at 1), and what is left of it when the node at 3 is deleted.
\<close>

definition alias_tree :: heap where
  "alias_tree =
     [Some \<lparr>node_name = [], node_depth = 1, node_parent = None, node_type = Dir,
            node_payload = Dirhash [(''a'', 1), (''a/b'', 3)]\<rparr>,
      Some \<lparr>node_name = ''a'', node_depth = 2, node_parent = Some 0, node_type = Dir,
            node_payload = Dirhash [(''b'', 2)]\<rparr>,
      Some \<lparr>node_name = ''b'', node_depth = 3, node_parent = Some 1, node_type = File,
            node_payload = Content []\<rparr>,
      Some \<lparr>node_name = ''a/b'', node_depth = 2, node_parent = Some 0, node_type = File,
            node_payload = Content []\<rparr>]"

definition alias_tree_after :: heap where
  "alias_tree_after =
     [Some \<lparr>node_name = [], node_depth = 1, node_parent = None, node_type = Dir,
            node_payload = Dirhash [(''a'', 1)]\<rparr>,
      Some \<lparr>node_name = ''a'', node_depth = 2, node_parent = Some 0, node_type = Dir,
            node_payload = Dirhash [(''b'', 2)]\<rparr>,
      Some \<lparr>node_name = ''b'', node_depth = 3, node_parent = Some 1, node_type = File,
            node_payload = Content []\<rparr>,
      None]"

section \<open>Basic facts about memory and tables\<close>


lemma fbind_Inr [simp]: "fbind (Inr x) f = f x"
  by (simp add: fbind_def)

lemma fbind_Inl [simp]: "fbind (Inl e) f = Inl e"
  by (simp add: fbind_def)

lemma with_ptr_simps [simp]: "with_ptr None f = Inl NullDeref" "with_ptr (Some a) f = f a"
  by (simp_all add: with_ptr_def)

lemma load_Some [simp]: "lookup h a = Some n \<Longrightarrow> load h a = Inr n"
  by (simp add: load_def)

lemma load_None [simp]: "lookup h a = None \<Longrightarrow> load h a = Inl BadPtr"
  by (simp add: load_def)

lemma get_dirhash_simps [simp]:
  "node_payload n = Dirhash t \<Longrightarrow> get_dirhash n = Inr t"
  "node_payload n = Content c \<Longrightarrow> get_dirhash n = Inl BadUnion"
  by (simp_all add: get_dirhash_def)

lemma get_content_simps [simp]:
  "node_payload n = Content c \<Longrightarrow> get_content n = Inr c"
  "node_payload n = Dirhash t \<Longrightarrow> get_content n = Inl BadUnion"
  by (simp_all add: get_content_def)

lemma lookup_append: 
  "lookup (h @ [x]) a = (if a = length h then x else lookup h a)"
  by (auto simp: lookup_def nth_append)

lemma lookup_update:
  "lookup (h[a := v]) b = (if b = a \<and> a < length h then v else lookup h b)"
  by (auto simp: lookup_def)

lemma lookup_length: "lookup h a = Some n \<Longrightarrow> a < length h"
  by (auto simp: lookup_def split: if_splits)

lemma lookup_store: "lookup h a = Some m \<Longrightarrow> lookup (store h a n) b = (if b = a then Some n else lookup h b)"
  by (auto simp: store_def lookup_update dest: lookup_length)

lemma lookup_free: "lookup (free h a) b = (if b = a then None else lookup h b)"
  by (auto simp: free_def lookup_update lookup_def)

lemma hashtable_get_set: "hashtable_get (hashtable_set t k v) k' = (if k' = k then Some v else hashtable_get t k')"
  by (induction t k v rule: hashtable_set.induct) (auto simp: hashtable_get_def)

lemma hashtable_get_None: "hashtable_get t k = None \<longleftrightarrow> k \<notin> fst ` set t"
  by (simp add: hashtable_get_def map_of_eq_None_iff)

lemma hashtable_size_set: "hashtable_get t k = None \<Longrightarrow> hashtable_get_size (hashtable_set t k v) = hashtable_get_size t + 1"
  by (induction t k v rule: hashtable_set.induct) (auto simp: hashtable_get_def hashtable_get_size_def split: if_splits)

lemma hashtable_get_remove: "hashtable_get (hashtable_remove t k) k' = (if k' = k then None else hashtable_get t k')"
  by (induction t) (auto simp: hashtable_get_def hashtable_remove_def)


lemma fs_create_fails:
  assumes "lookup h parentDir = Some p" and "node_payload p = Dirhash t"
    and "hashtable_get t name \<noteq> None \<or> hashtable_get_size t \<ge> MAX_NODES lim
           \<or> length name > MAX_NAMELENGHT lim \<or> node_depth p \<ge> MAX_DEPTH lim"
  shows "fs_create lim h parentDir name kind = Inr (- 1, h)"
  using assms by (simp add: fs_create_def)

lemma fs_create_succeeds:
  assumes "lookup h parentDir = Some p" and "node_payload p = Dirhash t"
    and "\<not> (hashtable_get t name \<noteq> None \<or> hashtable_get_size t \<ge> MAX_NODES lim
           \<or> length name > MAX_NAMELENGHT lim \<or> node_depth p \<ge> MAX_DEPTH lim)"
  shows "fs_create lim h parentDir name kind =
     Inr (0, store (h @ [Some \<lparr>node_name = name, node_depth = node_depth p + 1,
                   node_parent = Some parentDir, node_type = kind,
                   node_payload = (case kind of Dir \<Rightarrow> Dirhash hashtable_create
                                   | File \<Rightarrow> Content [])\<rparr>])
              parentDir (p\<lparr>node_payload := Dirhash (hashtable_set t name (length h))\<rparr>))"
  using assms by (cases kind) (simp_all add: fs_create_def malloc_or_die_def)

text \<open>
  C1. For a directory \<open>parentDir\<close> (an allocated node whose payload is a table \<open>t\<close>),
  \<open>fs_create\<close> returns 0 or -1. It returns -1 exactly when the name is already in the
  table, or the table holds \<open>MAX_NODES\<close> entries (the code tests \<open>\<ge>\<close>, which
  is \<open>=\<close> in a directory that respects the limit), or the name is
  longer than \<open>MAX_NAMELENGHT\<close>, or the depth of \<open>parentDir\<close> is at least
  \<open>MAX_DEPTH\<close>. When it returns 0, a cell that was free holds the new node, with the given
  name and kind, depth one more than the parent's, the parent pointer set, and an empty
  table (directory) or empty content (file); the parent's table maps the name to it, keeps
  every other name, and has grown by one; no other cell has changed.
\<close>

theorem fs_create_spec:
  assumes "lookup h parentDir = Some p" and "node_payload p = Dirhash t"
  shows "\<exists>r h'. fs_create lim h parentDir name kind = Inr (r, h') \<and> (r = 0 \<or> r = - 1)
     \<and> (r = - 1 \<longleftrightarrow> (hashtable_get t name \<noteq> None \<or> hashtable_get_size t \<ge> MAX_NODES lim
                     \<or> length name > MAX_NAMELENGHT lim \<or> node_depth p \<ge> MAX_DEPTH lim))
     \<and> (hashtable_get_size t \<le> MAX_NODES lim \<longrightarrow>
          (r = - 1 \<longleftrightarrow> (hashtable_get t name \<noteq> None \<or> hashtable_get_size t = MAX_NODES lim
                     \<or> length name > MAX_NAMELENGHT lim \<or> node_depth p \<ge> MAX_DEPTH lim)))
     \<and> (r = 0 \<longrightarrow> (\<exists>c t'. lookup h c = None
            \<and> lookup h' c = Some \<lparr>node_name = name, node_depth = node_depth p + 1,
                   node_parent = Some parentDir, node_type = kind,
                   node_payload = (case kind of Dir \<Rightarrow> Dirhash hashtable_create | File \<Rightarrow> Content [])\<rparr>
            \<and> lookup h' parentDir = Some (p\<lparr>node_payload := Dirhash t'\<rparr>)
            \<and> hashtable_get t' name = Some c
            \<and> (\<forall>k. k \<noteq> name \<longrightarrow> hashtable_get t' k = hashtable_get t k)
            \<and> hashtable_get_size t' = hashtable_get_size t + 1
            \<and> (\<forall>a. a \<noteq> c \<and> a \<noteq> parentDir \<longrightarrow> lookup h' a = lookup h a)))"
proof (cases "hashtable_get t name \<noteq> None \<or> hashtable_get_size t \<ge> MAX_NODES lim
                     \<or> length name > MAX_NAMELENGHT lim \<or> node_depth p \<ge> MAX_DEPTH lim")
  case True
  then have "fs_create lim h parentDir name kind = Inr (- 1, h)"
    using assms by (simp add: fs_create_fails)
  with True show ?thesis
    by (intro exI[of _ "- 1"] exI[of _ h]) auto
next
  case False
  let ?child = "\<lparr>node_name = name, node_depth = node_depth p + 1,
                   node_parent = Some parentDir, node_type = kind,
                   node_payload = (case kind of Dir \<Rightarrow> Dirhash hashtable_create | File \<Rightarrow> Content [])\<rparr>"
  let ?t' = "hashtable_set t name (length h)"
  let ?h' = "store (h @ [Some ?child]) parentDir (p\<lparr>node_payload := Dirhash ?t'\<rparr>)"
  have lt: "parentDir < length h" using assms(1) by (rule lookup_length)
  have run: "fs_create lim h parentDir name kind = Inr (0, ?h')"
    using fs_create_succeeds [OF assms False] .
  have 1: "lookup h (length h) = None" by (simp add: lookup_def)
  have 2: "lookup ?h' (length h) = Some ?child"
    using lt by (simp add: store_def lookup_update lookup_append)
  have 3: "lookup ?h' parentDir = Some (p\<lparr>node_payload := Dirhash ?t'\<rparr>)"
    using lt by (simp add: store_def lookup_update)
  have 4: "hashtable_get ?t' name = Some (length h)"
    by (simp add: hashtable_get_set)
  have 5: "\<forall>k. k \<noteq> name \<longrightarrow> hashtable_get ?t' k = hashtable_get t k"
    by (simp add: hashtable_get_set)
  have 6: "hashtable_get_size ?t' = hashtable_get_size t + 1"
    using False by (simp add: hashtable_size_set)
  have 7: "\<forall>a. a \<noteq> length h \<and> a \<noteq> parentDir \<longrightarrow> lookup ?h' a = lookup h a"
    by (simp add: store_def lookup_update lookup_append)
  show ?thesis
    apply (rule exI[of _ 0], rule exI[of _ ?h'])
    apply (intro conjI impI)
    subgoal by (rule run)
    subgoal by simp
    subgoal using False by simp
    subgoal using False by simp
    subgoal using 1 2 3 4 5 6 7 by blast
    done
qed


lemma example_heaps_wf:
  "well_formed root_only 0" "well_formed log_tree 0"
  by (simp_all add: well_formed_def root_only_def log_tree_def lookup_def node_ok_def
        entry_ok_def hashtable_get_def All_less_Suc)

theorem fs_create_spec_witness:
  "\<exists>r h'. fs_create example_limits root_only 0 ''a'' File = Inr (r, h') \<and> r = 0
      \<and> lookup h' 1 = Some \<lparr>node_name = ''a'', node_depth = 2, node_parent = Some 0,
                             node_type = File, node_payload = Content []\<rparr>"
  using fs_create_spec [of root_only 0 "\<lparr>node_name = [], node_depth = 1, node_parent = None,
      node_type = Dir, node_payload = Dirhash []\<rparr>" "[]" example_limits "''a''" File]
  by (simp add: root_only_def lookup_def example_limits_def fs_create_def malloc_or_die_def
       store_def hashtable_get_def hashtable_get_size_def hashtable_create_def)

text \<open>
  C4. For a node with a parent directory (a non-root node), \<open>fs_delete\<close> returns 0 on a
  file; on a directory it returns 0 exactly when the table is empty. When it returns 0 the
  node's cell is free, the parent's table has lost the node's name and kept every other
  name, and no other cell has changed (nothing below the node is visited). When it does
  not return 0 the heap is the one it was given.
\<close>

theorem fs_delete_spec:
  assumes "lookup h node = Some n" and "node_parent n = Some pa" and "pa \<noteq> node"
    and "lookup h pa = Some p" and "node_payload p = Dirhash pt"
    and "node_type n = Dir \<longleftrightarrow> (\<exists>t. node_payload n = Dirhash t)"
  shows "\<exists>r h'. fs_delete h node = Inr (r, h')
     \<and> (node_type n = File \<longrightarrow> r = 0)
     \<and> (node_type n = Dir \<longrightarrow> (r = 0 \<longleftrightarrow> node_payload n = Dirhash []))
     \<and> (r = 0 \<longrightarrow> lookup h' node = None
           \<and> (\<exists>pt'. lookup h' pa = Some (p\<lparr>node_payload := Dirhash pt'\<rparr>)
                 \<and> hashtable_get pt' (node_name n) = None
                 \<and> (\<forall>k. k \<noteq> node_name n \<longrightarrow> hashtable_get pt' k = hashtable_get pt k))
           \<and> (\<forall>a. a \<noteq> node \<and> a \<noteq> pa \<longrightarrow> lookup h' a = lookup h a))
     \<and> (r \<noteq> 0 \<longrightarrow> h' = h)"
proof -
  let ?pt' = "hashtable_remove pt (node_name n)"
  let ?h' = "free (store h pa (p\<lparr>node_payload := Dirhash ?pt'\<rparr>)) node"
  have p1: "lookup ?h' node = None"
    by (simp add: lookup_free)
  have p2: "lookup ?h' pa = Some (p\<lparr>node_payload := Dirhash ?pt'\<rparr>)"
    using assms(3,4) by (simp add: lookup_free lookup_store)
  have p3: "hashtable_get ?pt' (node_name n) = None
           \<and> (\<forall>k. k \<noteq> node_name n \<longrightarrow> hashtable_get ?pt' k = hashtable_get pt k)"
    by (simp add: hashtable_get_remove)
  have p4: "\<forall>a. a \<noteq> node \<and> a \<noteq> pa \<longrightarrow> lookup ?h' a = lookup h a"
    using assms(4) by (simp add: lookup_free lookup_store)
  from p1 p2 p3 p4
  have post: "lookup ?h' node = None
           \<and> (\<exists>pt'. lookup ?h' pa = Some (p\<lparr>node_payload := Dirhash pt'\<rparr>)
                 \<and> hashtable_get pt' (node_name n) = None
                 \<and> (\<forall>k. k \<noteq> node_name n \<longrightarrow> hashtable_get pt' k = hashtable_get pt k))
           \<and> (\<forall>a. a \<noteq> node \<and> a \<noteq> pa \<longrightarrow> lookup ?h' a = lookup h a)"
    by blast
  show ?thesis
  proof (cases "node_payload n")
    case (Dirhash t)
    with assms(6) have ty: "node_type n = Dir" by simp
    show ?thesis
    proof (cases "t = []")
      case True
      have "fs_delete h node = Inr (0, ?h')"
        using assms(1,2,4,5) Dirhash ty True
        by (simp add: fs_delete_def fs_free_dir_def hashtable_get_size_def)
      with post ty Dirhash True show ?thesis by simp
    next
      case False
      have "fs_delete h node = Inr (- 1, h)"
        using assms(1) Dirhash ty False
        by (simp add: fs_delete_def fs_free_dir_def hashtable_get_size_def)
      with ty Dirhash False show ?thesis by simp
    qed
  next
    case (Content c)
    with assms(6) have ty: "node_type n = File" by (cases "node_type n") simp_all
    have "fs_delete h node = Inr (0, ?h')"
      using assms(1,2,4,5) Content ty by (simp add: fs_delete_def fs_free_file_def)
    with post ty show ?thesis by simp
  qed
qed

theorem fs_delete_spec_witness:
  "\<exists>r h'. fs_delete log_tree 1 = Inr (r, h') \<and> r \<noteq> 0 \<and> h' = log_tree"
proof -
  let ?n = "\<lparr>node_name = ''log'', node_depth = 2, node_parent = Some 0,
       node_type = Dir, node_payload = Dirhash [(''log'', 2)]\<rparr>"
  let ?p = "\<lparr>node_name = [], node_depth = 1, node_parent = None, node_type = Dir,
            node_payload = Dirhash [(''log'', 1), (''f'', 3)]\<rparr>"
  have 1: "lookup log_tree 1 = Some ?n" by (simp add: log_tree_def lookup_def)
  have 2: "node_parent ?n = Some 0" by simp
  have 3: "(0::nat) \<noteq> 1" by simp
  have 4: "lookup log_tree 0 = Some ?p" by (simp add: log_tree_def lookup_def)
  have 5: "node_payload ?p = Dirhash [(''log'', 1), (''f'', 3)]" by simp
  have 6: "node_type ?n = Dir \<longleftrightarrow> (\<exists>t. node_payload ?n = Dirhash t)" by simp
  from fs_delete_spec [OF 1 2 3 4 5 6] obtain r h' where
    r: "fs_delete log_tree 1 = Inr (r, h')"
      "node_type ?n = Dir \<longrightarrow> (r = 0 \<longleftrightarrow> node_payload ?n = Dirhash [])"
      "r \<noteq> 0 \<longrightarrow> h' = log_tree"
    by blast
  from r(2) have "r \<noteq> 0" by simp
  with r show ?thesis by blast
qed


lemma my_strdup_elsewhere:
  assumes "string_at h q = Inr c" and "\<forall>k. q \<noteq> Into a k"
  shows "my_strdup h a q = Inr c"
  using assms by (cases q) (simp_all add: my_strdup_def string_at_def)

lemma fs_set_file_content_file:
  assumes "lookup h a = Some n" and "node_type n = File" and "node_payload n = Content c0"
    and "my_strdup h a q = Inr c"
  shows "fs_set_file_content h a q = Inr (0, store h a (n\<lparr>node_payload := Content c\<rparr>))"
  using assms by (simp add: fs_set_file_content_def fs_get_type_def)

lemma fs_set_file_content_other:
  assumes "lookup h a = Some n" and "node_type n \<noteq> File"
  shows "fs_set_file_content h a q = Inr (- 1, h)"
  using assms by (simp add: fs_set_file_content_def fs_get_type_def)

lemma fs_set_file_content_minus:
  assumes "lookup h a = Some n" and "node_type n = File"
  shows "fs_set_file_content h a q \<noteq> Inr (- 1, g')"
  using assms
  by (auto simp: fs_set_file_content_def fs_get_type_def fbind_def split: sum.splits)

text \<open>
  C8 (amended). After a successful \<open>fs_create\<close> of a file, the name is found in the
  parent, and for every pointer \<open>new_content\<close> that holds a string \<open>content\<close> and does not
  point into the content buffer of the new file, \<open>fs_set_file_content\<close> on that node
  returns 0 and \<open>fs_get_file_content\<close> then returns \<open>content\<close>. On any node whose tag
  agrees with its payload, \<open>fs_get_file_content\<close> returns \<open>NULL\<close> exactly when the node
  is not a file, and \<open>fs_set_file_content\<close> returns -1 exactly when the node is not a
  file, whatever the pointer; on a file the read succeeds, and the write succeeds for every
  pointer that holds a string and does not point into the content buffer of that file.
\<close>

theorem create_write_read:
  assumes "lookup h parentDir = Some p" and "node_payload p = Dirhash t"
    and "fs_create lim h parentDir name File = Inr (0, h1)"
    and "lookup g a = Some n"
    and "node_type n = File \<longleftrightarrow> (\<exists>c. node_payload n = Content c)"
  shows "(\<exists>f. fs_find_in_dir h1 parentDir name = Inr (Some f)
            \<and> (\<forall>new_content content.
                  string_at h1 new_content = Inr content \<and> (\<forall>k. new_content \<noteq> Into f k)
                  \<longrightarrow> (\<exists>h2. fs_set_file_content h1 f new_content = Inr (0, h2)
                          \<and> fs_get_file_content h2 f = Inr (Some content))))
     \<and> (fs_get_file_content g a = Inr None \<longleftrightarrow> node_type n \<noteq> File)
     \<and> (\<forall>q. (\<exists>g'. fs_set_file_content g a q = Inr (- 1, g')) \<longleftrightarrow> node_type n \<noteq> File)
     \<and> (node_type n = File \<longrightarrow>
           (\<exists>c. fs_get_file_content g a = Inr (Some c))
           \<and> (\<forall>q c. string_at g q = Inr c \<and> (\<forall>k. q \<noteq> Into a k)
                  \<longrightarrow> (\<exists>g'. fs_set_file_content g a q = Inr (0, g'))))"
proof -
  have ok: "\<not> (hashtable_get t name \<noteq> None \<or> hashtable_get_size t \<ge> MAX_NODES lim
           \<or> length name > MAX_NAMELENGHT lim \<or> node_depth p \<ge> MAX_DEPTH lim)"
  proof
    assume "hashtable_get t name \<noteq> None \<or> hashtable_get_size t \<ge> MAX_NODES lim
           \<or> length name > MAX_NAMELENGHT lim \<or> node_depth p \<ge> MAX_DEPTH lim"
    from fs_create_fails [OF assms(1,2) this] assms(3) show False by simp
  qed
  define c where "c = length h"
  define t' where "t' = hashtable_set t name (length h)"
  have lt: "parentDir < length h" using assms(1) by (rule lookup_length)
  from fs_create_succeeds [OF assms(1,2) ok, of File] assms(3)
  have h1: "h1 = store (h @ [Some \<lparr>node_name = name, node_depth = node_depth p + 1,
                   node_parent = Some parentDir, node_type = File,
                   node_payload = Content []\<rparr>])
              parentDir (p\<lparr>node_payload := Dirhash t'\<rparr>)"
    by (simp add: t'_def)
  let ?f = "\<lparr>node_name = name, node_depth = node_depth p + 1,
        node_parent = Some parentDir, node_type = File, node_payload = Content []\<rparr>"
  have c: "lookup h1 c = Some ?f"
    "lookup h1 parentDir = Some (p\<lparr>node_payload := Dirhash t'\<rparr>)"
    "hashtable_get t' name = Some c"
    using lt by (simp_all add: h1 c_def t'_def store_def lookup_update lookup_append
                   hashtable_get_set)
  have 1: "fs_find_in_dir h1 parentDir name = Inr (Some c)"
    using c(2,3) by (simp add: fs_find_in_dir_def)
  have 2: "\<exists>h2. fs_set_file_content h1 c new_content = Inr (0, h2)
                \<and> fs_get_file_content h2 c = Inr (Some content)"
    if rd: "string_at h1 new_content = Inr content" and na: "\<forall>k. new_content \<noteq> Into c k"
    for new_content content
  proof -
    let ?h2 = "store h1 c (?f\<lparr>node_payload := Content content\<rparr>)"
    have dup: "my_strdup h1 c new_content = Inr content"
      using rd na by (rule my_strdup_elsewhere)
    have w: "fs_set_file_content h1 c new_content = Inr (0, ?h2)"
      by (rule fs_set_file_content_file [OF c(1) _ _ dup]) simp_all
    have "lookup ?h2 c = Some (?f\<lparr>node_payload := Content content\<rparr>)"
      using c(1) by (simp add: lookup_store)
    then have "fs_get_file_content ?h2 c = Inr (Some content)"
      by (simp add: fs_get_file_content_def)
    with w show ?thesis by blast
  qed
  have round: "\<exists>f. fs_find_in_dir h1 parentDir name = Inr (Some f)
            \<and> (\<forall>new_content content.
                  string_at h1 new_content = Inr content \<and> (\<forall>k. new_content \<noteq> Into f k)
                  \<longrightarrow> (\<exists>h2. fs_set_file_content h1 f new_content = Inr (0, h2)
                          \<and> fs_get_file_content h2 f = Inr (Some content)))"
  proof (rule exI [of _ c], intro conjI allI impI)
    show "fs_find_in_dir h1 parentDir name = Inr (Some c)" by (rule 1)
  next
    fix new_content content
    assume "string_at h1 new_content = Inr content \<and> (\<forall>k. new_content \<noteq> Into c k)"
    then show "\<exists>h2. fs_set_file_content h1 c new_content = Inr (0, h2)
                \<and> fs_get_file_content h2 c = Inr (Some content)"
      using 2 by simp
  qed
  have rest: "(fs_get_file_content g a = Inr None \<longleftrightarrow> node_type n \<noteq> File)
     \<and> (\<forall>q. (\<exists>g'. fs_set_file_content g a q = Inr (- 1, g')) \<longleftrightarrow> node_type n \<noteq> File)
     \<and> (node_type n = File \<longrightarrow>
           (\<exists>c. fs_get_file_content g a = Inr (Some c))
           \<and> (\<forall>q c. string_at g q = Inr c \<and> (\<forall>k. q \<noteq> Into a k)
                  \<longrightarrow> (\<exists>g'. fs_set_file_content g a q = Inr (0, g'))))"
  proof (cases "node_type n = File")
    case True
    with assms(5) obtain c0 where c0: "node_payload n = Content c0" by blast
    have r: "fs_get_file_content g a = Inr (Some c0)"
      using True c0 assms(4) by (simp add: fs_get_file_content_def)
    have m: "\<not> (\<exists>g'. fs_set_file_content g a q = Inr (- 1, g'))" for q
      using fs_set_file_content_minus [OF assms(4) True] by simp
    have w: "\<exists>g'. fs_set_file_content g a q = Inr (0, g')"
      if "string_at g q = Inr c1 \<and> (\<forall>k. q \<noteq> Into a k)" for q c1
    proof -
      from that have "my_strdup g a q = Inr c1" by (simp add: my_strdup_elsewhere)
      from fs_set_file_content_file [OF assms(4) True c0 this] show ?thesis by blast
    qed
    from True r m w show ?thesis by simp
  next
    case False
    have "fs_get_file_content g a = Inr None"
      using False assms(4) by (simp add: fs_get_file_content_def)
    moreover have "\<exists>g'. fs_set_file_content g a q = Inr (- 1, g')" for q
      using fs_set_file_content_other [OF assms(4) False] by blast
    ultimately show ?thesis using False by simp
  qed
  from round rest show ?thesis by (rule conjI)
qed

theorem create_write_read_witness:
  "\<exists>h1 f h2. fs_create example_limits root_only 0 ''a'' File = Inr (0, h1)
      \<and> fs_find_in_dir h1 0 ''a'' = Inr (Some f)
      \<and> fs_set_file_content h1 f (Own ''hello'') = Inr (0, h2)
      \<and> fs_get_file_content h2 f = Inr (Some ''hello'')
      \<and> fs_get_file_content log_tree 1 = Inr None
      \<and> (\<exists>g'. fs_set_file_content log_tree 1 (Into 2 0) = Inr (- 1, g'))"
proof -
  let ?r = "\<lparr>node_name = [], node_depth = 1, node_parent = None, node_type = Dir,
            node_payload = Dirhash []\<rparr>"
  let ?n = "\<lparr>node_name = ''log'', node_depth = 2, node_parent = Some 0,
       node_type = Dir, node_payload = Dirhash [(''log'', 2)]\<rparr>"
  obtain h1 where 3: "fs_create example_limits root_only 0 ''a'' File = Inr (0, h1)"
    by (simp add: fs_create_def root_only_def lookup_def example_limits_def malloc_or_die_def
          hashtable_get_def hashtable_get_size_def)
  have 1: "lookup root_only 0 = Some ?r" by (simp add: root_only_def lookup_def)
  have 2: "node_payload ?r = Dirhash []" by simp
  have 4: "lookup log_tree 1 = Some ?n" by (simp add: log_tree_def lookup_def)
  have 5: "node_type ?n = File \<longleftrightarrow> (\<exists>c. node_payload ?n = Content c)" by simp
  have 6: "string_at h1 (Own ''hello'') = Inr ''hello''" by (simp add: string_at_def)
  from create_write_read [OF 1 2 3 4 5] 3 6 show ?thesis
    by auto
qed

text \<open>
  C8 as stated, for every content, fails for the content that the file itself holds: the
  file \<open>a\<close> is created in the root, \<open>fs_get_file_content\<close> returns its (empty) content,
  which is the string at the pointer \<open>Into 1 0\<close>, and \<open>fs_set_file_content\<close> with that
  pointer releases the buffer and then reads it. The same on the file \<open>/log/log\<close>, which
  holds \<open>hello\<close>.
\<close>

theorem create_write_read_counterexample:
  "fs_create example_limits root_only 0 ''a'' File = Inr (0, file_tree)
   \<and> fs_find_in_dir file_tree 0 ''a'' = Inr (Some 1)
   \<and> fs_get_file_content file_tree 1 = Inr (Some [])
   \<and> string_at file_tree (Into 1 0) = Inr []
   \<and> fs_set_file_content file_tree 1 (Into 1 0) = Inl UseAfterFree
   \<and> fs_get_file_content log_tree 2 = Inr (Some ''hello'')
   \<and> string_at log_tree (Into 2 0) = Inr ''hello''
   \<and> fs_set_file_content log_tree 2 (Into 2 0) = Inl UseAfterFree"
  by (simp add: fs_create_def root_only_def file_tree_def log_tree_def lookup_def store_def
        example_limits_def malloc_or_die_def hashtable_get_def hashtable_get_size_def
        fs_find_in_dir_def fs_get_file_content_def string_at_def
        fs_set_file_content_def fs_get_type_def my_strdup_def get_content_def get_dirhash_def
        load_def with_ptr_def fbind_def)


text \<open>
  C9. Whenever \<open>fs_create\<close>, \<open>fs_delete\<close> or \<open>fs_set_file_content\<close> returns a
  result other than 0, the heap it returns is the heap it was given.
\<close>

theorem failed_mutation_untouched:
  "(fs_create lim h parent key type = Inr (r, h') \<and> r \<noteq> 0 \<longrightarrow> h' = h)
   \<and> (fs_delete h node = Inr (r, h') \<and> r \<noteq> 0 \<longrightarrow> h' = h)
   \<and> (fs_set_file_content h node new_content = Inr (r, h') \<and> r \<noteq> 0 \<longrightarrow> h' = h)"
proof (intro conjI impI)
  assume "fs_create lim h parent key type = Inr (r, h') \<and> r \<noteq> 0"
  then show "h' = h"
    by (auto simp: fs_create_def fbind_def malloc_or_die_def
          split: sum.splits if_splits prod.splits)
next
  assume "fs_delete h node = Inr (r, h') \<and> r \<noteq> 0"
  then show "h' = h"
    by (auto simp: fs_delete_def fs_free_dir_def fbind_def with_ptr_def
          split: sum.splits if_splits option.splits)
next
  assume "fs_set_file_content h node new_content = Inr (r, h') \<and> r \<noteq> 0"
  then show "h' = h"
    by (auto simp: fs_set_file_content_def fbind_def split: sum.splits if_splits)
qed

theorem failed_mutation_untouched_witness:
  "fs_create example_limits log_tree 0 ''log'' File = Inr (- 1, log_tree)
   \<and> fs_delete log_tree 1 = Inr (- 1, log_tree)
   \<and> fs_set_file_content log_tree 1 (Own ''x'') = Inr (- 1, log_tree)"
proof -
  obtain h1 where 1: "fs_create example_limits log_tree 0 ''log'' File = Inr (- 1, h1)"
    by (simp add: fs_create_def log_tree_def lookup_def hashtable_get_def)
  obtain h2 where 2: "fs_delete log_tree 1 = Inr (- 1, h2)"
    by (simp add: fs_delete_def fs_free_dir_def log_tree_def lookup_def hashtable_get_size_def)
  obtain h3 where 3: "fs_set_file_content log_tree 1 (Own ''x'') = Inr (- 1, h3)"
    by (simp add: fs_set_file_content_def fs_get_type_def log_tree_def lookup_def)
  from failed_mutation_untouched [of example_limits log_tree 0 "''log''" File "- 1" h1] 1
  have "h1 = log_tree" by simp
  moreover
  from failed_mutation_untouched [of _ log_tree _ _ _ "- 1" h2 1] 2
  have "h2 = log_tree" by simp
  moreover
  from failed_mutation_untouched [of _ log_tree _ _ _ "- 1" h3 1 "Own ''x''"] 3
  have "h3 = log_tree" by simp
  ultimately show ?thesis using 1 2 3 by simp
qed

text \<open>
  C7. On the root, \<open>fs_get_path\<close> does not stop at the absent parent: the body of the
  \<open>do ... while\<close> loop moves to \<open>node->parent\<close>, which is \<open>NULL\<close>, and the loop
  test reads \<open>node->parent\<close> through it.
\<close>

theorem fs_get_path_root_null_deref:
  "fs_get_path (Suc fuel) (snd (fs_new_root [])) (fst (fs_new_root [])) = Inl NullDeref"
  by (simp add: fs_get_path_def fs_new_root_def malloc_or_die_def lookup_def)


section \<open>The path resolver\<close>

declare tokens_next.simps [simp del]

lemma strtok_exhausted: "fst (strtok None delim olds) = None \<Longrightarrow> snd (strtok None delim olds) = []"
  by (simp add: strtok_def Let_def split: if_splits)

lemma tokens_next_Nil: "tokens_next [] = []"
  by (simp add: tokens_next.simps strtok_def)

lemma enter_path_loop_tokens:
  "(next_token = None \<longrightarrow> olds = []) \<Longrightarrow>
   enter_path_loop h capture node cur next_token olds =
   enter_tokens h capture node
     (case cur of None \<Rightarrow> []
      | Some c \<Rightarrow> c # (case next_token of None \<Rightarrow> [] | Some n \<Rightarrow> n # tokens_next olds))"
proof (induction h capture node cur next_token olds rule: enter_path_loop.induct)
  case (1 h capture node next_token olds)
  show ?case by simp
next
  case (2 h capture node cur_token next_token olds)
  let ?nxt = "fst (strtok None delim_next olds)"
  let ?olds' = "snd (strtok None delim_next olds)"
  have inv: "?nxt = None \<longrightarrow> ?olds' = []"
    by (simp add: strtok_exhausted)
  have toks: "(case next_token of None \<Rightarrow> []
          | Some c \<Rightarrow> c # (case ?nxt of None \<Rightarrow> [] | Some n \<Rightarrow> n # tokens_next ?olds'))
        = (case next_token of None \<Rightarrow> [] | Some n \<Rightarrow> n # tokens_next olds)"
    by (cases next_token) (simp_all add: tokens_next.simps [of olds])
  have rest_empty: "(case next_token of None \<Rightarrow> [] | Some n \<Rightarrow> n # tokens_next olds) = []
        \<longleftrightarrow> next_token = None"
    by (cases next_token) simp_all
  show ?case
  proof (cases "fs_get_type h node")
    case (Inl e)
    then show ?thesis by simp
  next
    case (Inr ty)
    show ?thesis
    proof (cases "ty = Dir")
      case False
      with Inr show ?thesis by simp
    next
      case True
      show ?thesis
      proof (cases "fs_find_in_dir h node cur_token")
        case (Inl e)
        with Inr True show ?thesis by simp
      next
        case found: (Inr tmp)
        show ?thesis
        proof (cases tmp)
          case None
          with Inr True found rest_empty show ?thesis by simp
        next
          case (Some x)
          from "2.IH" [OF True inv, of x]
          show ?thesis using Inr True found Some toks by simp
        qed
      qed
    qed
  qed
qed

lemma enter_path_tokens:
  "enter_path h node path capture olds =
     (case path_tokens path olds of
        [] \<Rightarrow> Inr (None, None)
      | t # ts \<Rightarrow> enter_tokens h capture node (t # ts))"
proof -
  obtain cur olds1 where s1: "strtok path delim_first olds = (cur, olds1)"
    by (cases "strtok path delim_first olds")
  obtain nxt olds2 where s2: "strtok None delim_next olds1 = (nxt, olds2)"
    by (cases "strtok None delim_next olds1")
  show ?thesis
  proof (cases cur)
    case None
    with s1 s2 show ?thesis
      by (simp add: enter_path_def path_tokens_def)
  next
    case (Some t)
    have inv: "nxt = None \<longrightarrow> olds2 = []"
      using strtok_exhausted [of delim_next olds1] s2 by simp
    have "enter_path h node path capture olds = enter_path_loop h capture node (Some t) nxt olds2"
      using Some s1 s2 by (simp add: enter_path_def)
    also have "\<dots> = enter_tokens h capture node
         (t # (case nxt of None \<Rightarrow> [] | Some n \<Rightarrow> n # tokens_next olds2))"
      using enter_path_loop_tokens [OF inv, of h capture node "Some t"] by simp
    also have "(case nxt of None \<Rightarrow> [] | Some n \<Rightarrow> n # tokens_next olds2) = tokens_next olds1"
      using s2 by (cases nxt) (simp_all add: tokens_next.simps [of olds1])
    finally show ?thesis using Some s1 by (simp add: path_tokens_def)
  qed
qed

lemma enter_tokens_resolved:
  "resolve h s ts = Some d \<Longrightarrow> enter_tokens h capture s (ts @ rest) = enter_tokens h capture d rest"
proof (induction ts arbitrary: s)
  case Nil
  then show ?case by simp
next
  case (Cons t ts)
  from Cons.prems obtain n tbl c where
    n: "lookup h s = Some n" "node_type n = Dir" "node_payload n = Dirhash tbl"
       "hashtable_get tbl t = Some c" "resolve h c ts = Some d"
    by (auto split: option.splits if_splits payload.splits)
  from n(1-4) have "fs_get_type h s = Inr Dir" "fs_find_in_dir h s t = Inr (Some c)"
    by (simp_all add: fs_get_type_def fs_find_in_dir_def)
  with Cons.IH [OF n(5)] show ?case by simp
qed




section \<open>Well-formed trees\<close>

lemma wf_root:
  assumes "well_formed h root"
  obtains r where "lookup h root = Some r" "node_parent r = None" "node_type r = Dir"
    "node_depth r = 1"
  using assms by (auto simp: well_formed_def split: option.splits)

lemma wf_node_ok:
  assumes "well_formed h root" and "lookup h a = Some n"
  shows "node_ok h root a n"
proof -
  from assms(2) have "a < length h" by (rule lookup_length)
  with assms show ?thesis by (auto simp: well_formed_def split: option.splits)
qed

lemma wf_tag:
  assumes "well_formed h root" and "lookup h a = Some n"
  shows "(node_type n = Dir \<longleftrightarrow> (\<exists>t. node_payload n = Dirhash t))
       \<and> (node_type n = File \<longleftrightarrow> (\<exists>c. node_payload n = Content c))"
  using wf_node_ok [OF assms] by (cases "node_payload n") (auto simp: node_ok_def)

lemma wf_distinct:
  assumes "well_formed h root" and "lookup h a = Some n" and "node_payload n = Dirhash t"
  shows "distinct (map fst t)"
  using wf_node_ok [OF assms(1,2)] assms(3) by (simp add: node_ok_def)

lemma wf_entry:
  assumes "well_formed h root" and "lookup h a = Some n" and "node_payload n = Dirhash t"
    and "(k, c) \<in> set t"
  obtains cn where "lookup h c = Some cn" "node_parent cn = Some a" "node_name cn = k"
    "node_depth cn = node_depth n + 1"
proof -
  from wf_node_ok [OF assms(1,2)] assms(3,4) have "entry_ok h a n (k, c)"
    by (auto simp: node_ok_def)
  then show ?thesis
    using that by (auto simp: entry_ok_def split: option.splits)
qed

lemma wf_root_iff:
  assumes "well_formed h root" and "lookup h a = Some n"
  shows "node_parent n = None \<longleftrightarrow> a = root"
proof
  assume "node_parent n = None"
  with wf_node_ok [OF assms] show "a = root" by (simp add: node_ok_def)
next
  assume "a = root"
  with assms show "node_parent n = None" by (auto elim: wf_root)
qed

lemma wf_parent:
  assumes "well_formed h root" and "lookup h a = Some n" and "a \<noteq> root"
  obtains pa p pt where "node_parent n = Some pa" "lookup h pa = Some p"
    "node_payload p = Dirhash pt" "node_type p = Dir"
    "hashtable_get pt (node_name n) = Some a" "node_depth n = node_depth p + 1" "pa \<noteq> a"
proof -
  from wf_root_iff [OF assms(1,2)] assms(3) obtain pa where pa: "node_parent n = Some pa"
    by auto
  with wf_node_ok [OF assms(1,2)] obtain p pt where
    p: "lookup h pa = Some p" "node_payload p = Dirhash pt"
       "hashtable_get pt (node_name n) = Some a"
    by (auto simp: node_ok_def split: option.splits payload.splits)
  from p(3) have "(node_name n, a) \<in> set pt"
    by (simp add: hashtable_get_def map_of_SomeD)
  from wf_entry [OF assms(1) p(1,2) this] assms(2)
  have d: "node_depth n = node_depth p + 1" by auto
  then have "pa \<noteq> a" using p(1) assms(2) by auto
  moreover from wf_tag [OF assms(1) p(1)] p(2) have "node_type p = Dir" by simp
  ultimately show ?thesis using that pa p d by blast
qed

lemma wf_depth_pos:
  assumes "well_formed h root" and "lookup h a = Some n"
  shows "0 < node_depth n"
proof (cases "a = root")
  case True
  with assms show ?thesis by (auto elim: wf_root)
next
  case False
  from wf_parent [OF assms False] show ?thesis by (metis add_gr_0 zero_less_one)
qed



section \<open>Paths\<close>

lemma render_path_simps [simp]:
  "render_path [] = []"
  "render_path (n # ns) = CHR ''/'' # n @ render_path ns"
  "render_path (ns @ ms) = render_path ns @ render_path ms"
  by (simp_all add: render_path_def)

lemma resolve_append:
  "resolve h s (xs @ ys) = (case resolve h s xs of None \<Rightarrow> None | Some d \<Rightarrow> resolve h d ys)"
  by (induction xs arbitrary: s) (auto split: option.splits payload.splits)

lemma names_to_root:
  assumes "well_formed h root"
  shows "names_to k h root = []"
proof -
  from assms obtain r where "lookup h root = Some r" "node_parent r = None"
    by (rule wf_root)
  then show ?thesis by (cases k) simp_all
qed

lemma names_to_step:
  assumes "lookup h a = Some n" and "node_parent n = Some pa"
  shows "names_to (Suc k) h a = names_to k h pa @ [node_name n]"
  using assms by simp

lemma resolve_names_to:
  assumes "well_formed h root"
  shows "lookup h a = Some n \<Longrightarrow> node_depth n \<le> k \<Longrightarrow> resolve h root (names_to k h a) = Some a"
proof (induction k arbitrary: a n)
  case 0
  with wf_depth_pos [OF assms "0.prems"(1)] show ?case by simp
next
  case (Suc k)
  show ?case
  proof (cases "a = root")
    case True
    with names_to_root [OF assms, of "Suc k"] show ?thesis
      by (simp del: names_to.simps)
  next
    case False
    obtain pa p pt where
      p: "node_parent n = Some pa" "lookup h pa = Some p" "node_payload p = Dirhash pt"
         "node_type p = Dir" "hashtable_get pt (node_name n) = Some a"
         "node_depth n = node_depth p + 1" "pa \<noteq> a"
      by (rule wf_parent [OF assms Suc.prems(1) False])
    from p(6) Suc.prems(2) have "node_depth p \<le> k" by simp
    from Suc.IH [OF p(2) this] have "resolve h root (names_to k h pa) = Some pa" .
    then show ?thesis
      using Suc.prems(1) p by (simp add: resolve_append)
  qed
qed

lemma names_to_more:
  assumes "well_formed h root"
  shows "lookup h a = Some n \<Longrightarrow> node_depth n \<le> k
           \<Longrightarrow> names_to k h a = names_to (node_depth n) h a"
proof (induction k arbitrary: a n)
  case 0
  then show ?case by simp
next
  case (Suc k)
  show ?case
  proof (cases "a = root")
    case True
    with names_to_root [OF assms, of "Suc k"] names_to_root [OF assms, of "node_depth n"]
    show ?thesis by (simp del: names_to.simps)
  next
    case False
    obtain pa p pt where
      p: "node_parent n = Some pa" "lookup h pa = Some p" "node_payload p = Dirhash pt"
         "node_type p = Dir" "hashtable_get pt (node_name n) = Some a"
         "node_depth n = node_depth p + 1" "pa \<noteq> a"
      by (rule wf_parent [OF assms Suc.prems(1) False])
    from p(6) Suc.prems(2) have le: "node_depth p \<le> k" by simp
    from p(6) have d: "node_depth n = Suc (node_depth p)" by simp
    have "names_to (Suc k) h a = names_to k h pa @ [node_name n]"
      by (rule names_to_step [OF Suc.prems(1) p(1)])
    also have "names_to k h pa = names_to (node_depth p) h pa"
      using Suc.IH [OF p(2) le] .
    also have "names_to (node_depth p) h pa @ [node_name n] = names_to (node_depth n) h a"
      unfolding d names_to_step [OF Suc.prems(1) p(1)] ..
    finally show ?thesis .
  qed
qed

lemma names_to_nonempty:
  assumes "well_formed h root" and "lookup h a = Some n" and "a \<noteq> root"
  shows "names_to (node_depth n) h a \<noteq> []"
proof -
  obtain pa p pt where
    p: "node_parent n = Some pa" "lookup h pa = Some p"
       "node_payload p = Dirhash pt" "node_type p = Dir"
       "hashtable_get pt (node_name n) = Some a" "node_depth n = node_depth p + 1" "pa \<noteq> a"
    by (rule wf_parent [OF assms])
  from p(6) have d: "node_depth n = Suc (node_depth p)" by simp
  show ?thesis
    unfolding d names_to_step [OF assms(2) p(1)] by simp
qed

text \<open>The loop of \<open>fs_get_path\<close> on a node that is not the root.\<close>

lemma fs_get_path_loop_names:
  assumes "well_formed h root"
  shows "lookup h a = Some n \<Longrightarrow> a \<noteq> root \<Longrightarrow> node_depth n \<le> fuel
          \<Longrightarrow> fs_get_path_loop fuel h (Some a) acc
              = Inr (render_path (names_to (node_depth n) h a) @ acc)"
proof (induction fuel arbitrary: a n acc)
  case 0
  with wf_depth_pos [OF assms "0.prems"(1)] show ?case by simp
next
  case (Suc fuel)
  obtain pa p pt where
    p: "node_parent n = Some pa" "lookup h pa = Some p" "node_payload p = Dirhash pt"
       "node_type p = Dir" "hashtable_get pt (node_name n) = Some a"
       "node_depth n = node_depth p + 1" "pa \<noteq> a"
    by (rule wf_parent [OF assms Suc.prems(1,2)])
  from p(6) have d: "node_depth n = Suc (node_depth p)" by simp
  have names: "names_to (node_depth n) h a = names_to (node_depth p) h pa @ [node_name n]"
    unfolding d by (rule names_to_step [OF Suc.prems(1) p(1)])
  show ?case
  proof (cases "pa = root")
    case True
    with wf_root_iff [OF assms p(2)] have "node_parent p = None" by simp
    moreover from True assms have "names_to (node_depth p) h pa = []"
      by (simp add: names_to_root)
    ultimately show ?thesis
      using Suc.prems(1) p(1,2) names by simp
  next
    case False
    with wf_root_iff [OF assms p(2)] have np: "node_parent p \<noteq> None" by simp
    from p(6) Suc.prems(3) have "node_depth p \<le> fuel" by simp
    from Suc.IH [OF p(2) False this]
    have "fs_get_path_loop fuel h (Some pa) (CHR ''/'' # node_name n @ acc)
            = Inr (render_path (names_to (node_depth p) h pa) @ CHR ''/'' # node_name n @ acc)" .
    then show ?thesis
      using Suc.prems(1) p(1,2) names np by simp
  qed
qed

lemma fs_get_path_names:
  assumes "well_formed h root" and "lookup h a = Some n" and "a \<noteq> root"
    and "node_depth n \<le> fuel"
  shows "fs_get_path fuel h a = Inr (render_path (path_names h a))"
  using fs_get_path_loop_names [OF assms, of "[]"] assms(2)
  by (simp add: fs_get_path_def path_names_def)

text \<open>Cutting a rendered path gives its names back, when the names are clean.\<close>

lemma render_path_head: "render_path ns = [] \<or> hd (render_path ns) = CHR ''/''"
  by (cases ns) simp_all

lemma takeWhile_name:
  assumes "\<forall>c \<in> set nm. c \<notin> set delim" and "CHR ''/'' \<in> set delim"
  shows "takeWhile (\<lambda>c. c \<notin> set delim) (nm @ render_path ns) = nm"
proof -
  have "takeWhile (\<lambda>c. c \<notin> set delim) (render_path ns) = []"
    using assms(2) by (cases ns) simp_all
  with assms(1) show ?thesis by (simp add: takeWhile_append2)
qed

lemma dropWhile_name:
  assumes "\<forall>c \<in> set nm. c \<notin> set delim" and "CHR ''/'' \<in> set delim"
  shows "dropWhile (\<lambda>c. c \<notin> set delim) (nm @ render_path ns) = render_path ns"
proof -
  have "dropWhile (\<lambda>c. c \<notin> set delim) (render_path ns) = render_path ns"
    using assms(2) by (cases ns) simp_all
  with assms(1) show ?thesis by simp
qed

lemma strtok_name:
  assumes "nm \<noteq> []" and "\<forall>c \<in> set nm. c \<notin> set delim" and "CHR ''/'' \<in> set delim"
    and that: "dropWhile (\<lambda>c. c \<in> set delim) (case str of None \<Rightarrow> olds | Some s0 \<Rightarrow> s0)
          = nm @ render_path ns"
  shows "strtok str delim olds = (Some nm, drop 1 (render_path ns))"
proof -
  have tw: "takeWhile (\<lambda>c. c \<notin> set delim) (nm @ render_path ns) = nm"
    by (rule takeWhile_name [OF assms(2,3)])
  have dw: "dropWhile (\<lambda>c. c \<notin> set delim) (nm @ render_path ns) = render_path ns"
    by (rule dropWhile_name [OF assms(2,3)])
  from assms(1) have ne: "nm @ render_path ns \<noteq> []" by simp
  show ?thesis
    unfolding strtok_def Let_def that tw dw using ne by simp
qed

lemma dropWhile_delims_name:
  assumes "nm \<noteq> []" and "\<forall>c \<in> set nm. c \<notin> set delim"
  shows "dropWhile (\<lambda>c. c \<in> set delim) (nm @ rest) = nm @ rest"
  using assms by (cases nm) simp_all

lemma tokens_next_render:
  "\<forall>x \<in> set ns. x \<noteq> [] \<and> (\<forall>c \<in> set x. c \<notin> set delim_next)
     \<Longrightarrow> tokens_next (drop 1 (render_path ns)) = ns"
proof (induction ns)
  case Nil
  show ?case by (simp add: tokens_next_Nil)
next
  case (Cons n ns)
  have sl: "CHR ''/'' \<in> set delim_next" by (simp add: delim_next_def)
  from Cons.prems have n: "n \<noteq> []" "\<forall>c \<in> set n. c \<notin> set delim_next" by simp_all
  have "strtok None delim_next (n @ render_path ns) = (Some n, drop 1 (render_path ns))"
    using dropWhile_delims_name [OF n] by (intro strtok_name [OF n sl]) simp
  with Cons.IH Cons.prems show ?case
    by (simp add: tokens_next.simps [of "n @ render_path ns"])
qed

lemma path_tokens_render:
  assumes "clean_names ns"
  shows "path_tokens (Some (render_path ns)) olds = ns"
proof (cases ns)
  case Nil
  then show ?thesis by (simp add: path_tokens_def strtok_def)
next
  case (Cons n rest)
  have sl: "CHR ''/'' \<in> set delim_first" by (simp add: delim_first_def)
  from assms Cons have n: "n \<noteq> []" "\<forall>c \<in> set n. c \<notin> set delim_first"
    and rest: "\<forall>x \<in> set rest. x \<noteq> [] \<and> (\<forall>c \<in> set x. c \<notin> set delim_next)"
    by (simp_all add: clean_names_def)
  have "dropWhile (\<lambda>c. c \<in> set delim_first) (render_path (n # rest))
      = n @ render_path rest"
    using sl dropWhile_delims_name [OF n] by simp
  then have "strtok (Some (render_path (n # rest))) delim_first olds
      = (Some n, drop 1 (render_path rest))"
    by (intro strtok_name [OF n sl]) simp
  with tokens_next_render [OF rest] Cons show ?thesis
    by (simp add: path_tokens_def)
qed

text \<open>
  C6 (amended). In a well-formed tree, for every node \<open>n\<close> other than the root such
  that the names on the way from the root to \<open>n\<close> are clean (none is empty or holds
  \<open>/\<close>, a newline or a carriage return, and the first holds no space), \<open>fs_get_path\<close>
  returns a string, given fuel of at least the depth of \<open>n\<close>, and \<open>enter_path\<close> from
  the root on that string, without capture, returns \<open>n\<close>.
\<close>

theorem get_path_resolves:
  assumes "well_formed h root" and "lookup h n = Some nd" and "n \<noteq> root"
    and "clean_names (path_names h n)"
  shows "\<exists>F p. (\<forall>fuel \<ge> F. fs_get_path fuel h n = Inr p)
           \<and> enter_path h root (Some p) False olds = Inr (Some n, None)"
proof -
  let ?ns = "path_names h n"
  have ns: "?ns = names_to (node_depth nd) h n"
    using assms(2) by (simp add: path_names_def)
  have ne: "?ns \<noteq> []"
    using names_to_nonempty [OF assms(1-3)] ns by simp
  have gp: "\<forall>fuel \<ge> node_depth nd. fs_get_path fuel h n = Inr (render_path ?ns)"
    using fs_get_path_names [OF assms(1-3)] by simp
  have res: "resolve h root ?ns = Some n"
    using resolve_names_to [OF assms(1,2), of "node_depth nd"] ns by simp
  have pt: "path_tokens (Some (render_path ?ns)) olds = ?ns"
    by (rule path_tokens_render [OF assms(4)])
  have "enter_path h root (Some (render_path ?ns)) False olds
      = (case ?ns of [] \<Rightarrow> Inr (None, None) | t # ts \<Rightarrow> enter_tokens h False root (t # ts))"
    by (simp only: enter_path_tokens pt)
  also have "\<dots> = enter_tokens h False root ?ns"
    using ne by (cases ?ns) simp_all
  also have "\<dots> = enter_tokens h False n []"
    using enter_tokens_resolved [OF res, of False "[]"] by simp
  finally have "enter_path h root (Some (render_path ?ns)) False olds = Inr (Some n, None)"
    by simp
  with gp show ?thesis by blast
qed

theorem get_path_resolves_witness:
  "\<exists>F p. (\<forall>fuel \<ge> F. fs_get_path fuel log_tree 2 = Inr p)
         \<and> enter_path log_tree 0 (Some p) False [] = Inr (Some 2, None)"
proof -
  let ?f = "\<lparr>node_name = ''log'', node_depth = 3, node_parent = Some 1, node_type = File,
            node_payload = Content ''hello''\<rparr>"
  have 1: "well_formed log_tree 0" by (rule example_heaps_wf)
  have 2: "lookup log_tree 2 = Some ?f" by (simp add: log_tree_def lookup_def)
  have 3: "(2::nat) \<noteq> 0" by simp
  have "path_names log_tree 2 = [''log'', ''log'']"
    by (simp add: path_names_def log_tree_def lookup_def numeral_3_eq_3)
  then have 4: "clean_names (path_names log_tree 2)"
    by (simp add: clean_names_def delim_first_def delim_next_def)
  from get_path_resolves [OF 1 2 3 4] show ?thesis .
qed

text \<open>
  C6 as stated fails: \<open>fs_create\<close> accepts the name \<open>a/b\<close>, the node's path is
  \<open>/a/b\<close>, and \<open>enter_path\<close> looks for \<open>a\<close> in the root and returns \<open>NULL\<close>.
  It is the same with the name \<open>a b\<close> in the root, which is cut at the space, and with
  the empty name, whose path \<open>/\<close> has no component.
\<close>

theorem get_path_resolves_counterexample:
  "fs_create \<lparr>MAX_NODES = 1024, MAX_NAMELENGHT = 255, MAX_DEPTH = 255\<rparr> root_only 0 ''a/b'' File
      = Inr (0, slash_tree)
   \<and> well_formed slash_tree 0
   \<and> fs_get_path 2 slash_tree 1 = Inr ''/a/b''
   \<and> enter_path slash_tree 0 (Some ''/a/b'') False [] = Inr (None, None)
   \<and> fs_create \<lparr>MAX_NODES = 1024, MAX_NAMELENGHT = 255, MAX_DEPTH = 255\<rparr> root_only 0 ''a b'' File
      = Inr (0, space_tree)
   \<and> well_formed space_tree 0
   \<and> fs_get_path 2 space_tree 1 = Inr ''/a b''
   \<and> enter_path space_tree 0 (Some ''/a b'') False [] = Inr (None, None)
   \<and> fs_create \<lparr>MAX_NODES = 1024, MAX_NAMELENGHT = 255, MAX_DEPTH = 255\<rparr> root_only 0 [] File
      = Inr (0, noname_tree)
   \<and> well_formed noname_tree 0
   \<and> fs_get_path 2 noname_tree 1 = Inr ''/''
   \<and> enter_path noname_tree 0 (Some ''/'') False [] = Inr (None, None)"
  by (simp add: root_only_def slash_tree_def space_tree_def noname_tree_def
        lookup_def malloc_or_die_def store_def free_def
        hashtable_get_def hashtable_get_size_def hashtable_create_def hashtable_remove_def
        hashtable_iterate_def well_formed_def node_ok_def entry_ok_def All_less_Suc
        fs_get_path_def fs_create_def fs_free_file_def fs_free_dir_def
        enter_path_def strtok_def delim_first_def delim_next_def
        fs_get_type_def fs_find_in_dir_def eval_nat_numeral)



section \<open>The subtree of a node\<close>

lemma descendants_trans:
  "x \<in> descendants h c \<Longrightarrow> c \<in> descendants h d \<Longrightarrow> x \<in> descendants h d"
proof (induction rule: descendants.induct)
  case (child n t k x)
  from descendants.below [OF child.prems child.hyps] show ?case .
next
  case (below y n t k x)
  from descendants.below [OF below.IH [OF below.prems] below.hyps(2,3,4)] show ?case .
qed

lemma descendants_unfold:
  assumes "lookup h d = Some n" and "node_payload n = Dirhash t"
  shows "descendants h d = (\<Union>e \<in> set t. insert (snd e) (descendants h (snd e)))"
proof (intro set_eqI iffI)
  fix x
  assume "x \<in> descendants h d"
  then show "x \<in> (\<Union>e \<in> set t. insert (snd e) (descendants h (snd e)))"
  proof (induction rule: descendants.induct)
    case (child n' t' k x)
    with assms have "(k, x) \<in> set t" by simp
    then show ?case by force
  next
    case (below y n' t' k x)
    from below.IH obtain e where e: "e \<in> set t" "y = snd e \<or> y \<in> descendants h (snd e)"
      by auto
    from e(2) have "x \<in> descendants h (snd e)"
    proof
      assume "y = snd e"
      with below.hyps(2,3,4) show ?thesis by (auto intro: descendants.child)
    next
      assume "y \<in> descendants h (snd e)"
      from descendants.below [OF this below.hyps(2,3,4)] show ?thesis .
    qed
    with e(1) show ?case by auto
  qed
next
  fix x
  assume "x \<in> (\<Union>e \<in> set t. insert (snd e) (descendants h (snd e)))"
  then obtain k c where e: "(k, c) \<in> set t" "x = c \<or> x \<in> descendants h c"
    by force
  from descendants.child [OF assms e(1)] have c: "c \<in> descendants h d" .
  from e(2) show "x \<in> descendants h d"
  proof
    assume "x = c"
    with c show ?thesis by simp
  next
    assume "x \<in> descendants h c"
    from descendants_trans [OF this c] show ?thesis .
  qed
qed

lemma descendants_file:
  assumes "lookup h d = Some n" and "node_payload n = Content c"
  shows "descendants h d = {}"
proof -
  have "x \<notin> descendants h d" for x
  proof
    assume "x \<in> descendants h d"
    then show False
      using assms by (induction rule: descendants.induct) simp_all
  qed
  then show ?thesis by blast
qed

lemma depth_bound: "\<exists>D. \<forall>a n. lookup h a = Some n \<longrightarrow> node_depth n \<le> D"
proof -
  have "\<exists>D. \<forall>n. Some n \<in> set h \<longrightarrow> node_depth n \<le> D"
  proof (induction h)
    case Nil
    show ?case by simp
  next
    case (Cons x h)
    then obtain D where D: "\<forall>n. Some n \<in> set h \<longrightarrow> node_depth n \<le> D" by blast
    show ?case
    proof (cases x)
      case None
      with D show ?thesis by auto
    next
      case (Some m)
      have "\<forall>n. Some n \<in> set (x # h) \<longrightarrow> node_depth n \<le> max D (node_depth m)"
        using D Some by (auto simp: max_def)
      then show ?thesis ..
    qed
  qed
  then obtain D where "\<forall>n. Some n \<in> set h \<longrightarrow> node_depth n \<le> D" ..
  then have "\<forall>a n. lookup h a = Some n \<longrightarrow> node_depth n \<le> D"
    by (auto simp: lookup_def split: if_splits) (metis nth_mem)
  then show ?thesis ..
qed


section \<open>Removing a subtree keeps the tree well formed\<close>

lemma descendants_deeper:
  assumes "well_formed h root" and "a \<in> descendants h d"
  shows "\<exists>an dn q. lookup h a = Some an \<and> lookup h d = Some dn
           \<and> node_depth dn < node_depth an
           \<and> node_parent an = Some q \<and> (q = d \<or> q \<in> descendants h d)"
  using assms(2)
proof (induction rule: descendants.induct)
  case (child n t k c)
  from wf_entry [OF assms(1) child] obtain cn where
    "lookup h c = Some cn" "node_parent cn = Some d" "node_name cn = k"
    "node_depth cn = node_depth n + 1" .
  with child(1) show ?case by simp
next
  case (below x n t k c)
  from wf_entry [OF assms(1) below.hyps(2,3,4)] obtain cn where
    cn: "lookup h c = Some cn" "node_parent cn = Some x" "node_name cn = k"
    "node_depth cn = node_depth n + 1" .
  from below.IH below.hyps(2) obtain dn where "lookup h d = Some dn" "node_depth dn < node_depth n"
    by auto
  with cn below.hyps(1) show ?case by simp
qed

lemma descendants_not_self:
  assumes "well_formed h root"
  shows "d \<notin> descendants h d"
  using descendants_deeper [OF assms, of d d] by auto

lemma descendants_not_root:
  assumes "well_formed h root"
  shows "root \<notin> descendants h d"
proof
  assume "root \<in> descendants h d"
  from descendants_deeper [OF assms this] obtain an q where
    "lookup h root = Some an" "node_parent an = Some q" by blast
  with wf_root_iff [OF assms this(1)] show False by simp
qed

lemma descendants_child_of:
  assumes "lookup h q = Some qn" and "node_payload qn = Dirhash qt" and "(k, a) \<in> set qt"
    and "q = x \<or> q \<in> descendants h x"
  shows "a \<in> descendants h x"
  using assms(4)
proof
  assume "q = x"
  with descendants.child [OF assms(1,2,3)] show ?thesis by simp
next
  assume "q \<in> descendants h x"
  from descendants.below [OF this assms(1,2,3)] show ?thesis .
qed

lemma hashtable_get_mem: "hashtable_get t k = Some v \<Longrightarrow> (k, v) \<in> set t"
  by (simp add: hashtable_get_def map_of_SomeD)

lemma hashtable_mem_get: "distinct (map fst t) \<Longrightarrow> (k, v) \<in> set t \<Longrightarrow> hashtable_get t k = Some v"
  by (simp add: hashtable_get_def)

lemma hashtable_remove_distinct: "distinct (map fst t) \<Longrightarrow> distinct (map fst (hashtable_remove t k))"
  by (simp add: hashtable_remove_def distinct_map_filter)

lemma hashtable_remove_mem: "e \<in> set (hashtable_remove t k) \<longleftrightarrow> e \<in> set t \<and> fst e \<noteq> k"
  by (auto simp: hashtable_remove_def)

lemma subtree_removed_wf:
  assumes wf: "well_formed h root" and nr: "x \<noteq> root" and rm: "subtree_removed h x h'"
  shows "well_formed h' root"
proof -
  let ?S = "insert x (descendants h x)"
  from rm obtain xn pa p pt where
    len: "length h' = length h"
    and x: "lookup h x = Some xn" "node_parent xn = Some pa"
    and p: "lookup h pa = Some p" "node_payload p = Dirhash pt"
    and p': "lookup h' pa = Some (p\<lparr>node_payload := Dirhash (hashtable_remove pt (node_name xn))\<rparr>)"
    and gone: "\<forall>a \<in> ?S. lookup h' a = None"
    and same: "\<forall>a. a \<notin> ?S \<and> a \<noteq> pa \<longrightarrow> lookup h' a = lookup h a"
    by (auto simp: subtree_removed_def)
  obtain pa0 p0 pt0 where
    "node_parent xn = Some pa0" "lookup h pa0 = Some p0" "node_payload p0 = Dirhash pt0"
    "node_type p0 = Dir" "hashtable_get pt0 (node_name xn) = Some x"
    "node_depth xn = node_depth p0 + 1" "pa0 \<noteq> x"
    by (rule wf_parent [OF wf x(1) nr])
  with x(2) p have px: "node_type p = Dir" "hashtable_get pt (node_name xn) = Some x"
    "node_depth xn = node_depth p + 1" "pa \<noteq> x"
    by simp_all
  have deeper: "node_depth xn < node_depth an" if "a \<in> descendants h x" "lookup h a = Some an" for a an
    using descendants_deeper [OF wf that(1)] that(2) x(1) by auto
  have pa_out: "pa \<notin> ?S"
  proof
    assume "pa \<in> ?S"
    with px(4) have "pa \<in> descendants h x" by simp
    from deeper [OF this p(1)] px(3) show False by simp
  qed
  txt \<open>A node outside the removed set keeps its parent, name, depth and kind.\<close>
  have kept: "\<exists>n'. lookup h' a = Some n' \<and> node_parent n' = node_parent n
              \<and> node_name n' = node_name n \<and> node_depth n' = node_depth n
              \<and> node_type n' = node_type n
              \<and> (a \<noteq> pa \<longrightarrow> n' = n)"
    if "lookup h a = Some n" "a \<notin> ?S" for a n
  proof (cases "a = pa")
    case True
    with that(1) p(1) p' show ?thesis by simp
  next
    case False
    with same that show ?thesis by simp
  qed
  txt \<open>The parent of a node outside the removed set is outside it too.\<close>
  have parent_out: "q \<notin> ?S"
    if an: "lookup h a = Some n" and a_out: "a \<notin> ?S" and nq: "node_parent n = Some q" for a n q
  proof
    assume q: "q \<in> ?S"
    from nq wf_root_iff [OF wf an] have ar: "a \<noteq> root" by auto
    obtain q0 qn qt where
      "node_parent n = Some q0" "lookup h q0 = Some qn" "node_payload qn = Dirhash qt"
      "node_type qn = Dir" "hashtable_get qt (node_name n) = Some a"
      "node_depth n = node_depth qn + 1" "q0 \<noteq> a"
      by (rule wf_parent [OF wf an ar])
    with nq have qn: "lookup h q = Some qn" "node_payload qn = Dirhash qt"
      "(node_name n, a) \<in> set qt"
      by (simp_all add: hashtable_get_mem)
    from q have "q = x \<or> q \<in> descendants h x" by simp
    from descendants_child_of [OF qn this] a_out show False by simp
  qed
  have root_ok: "case lookup h' root of None \<Rightarrow> False
       | Some r \<Rightarrow> node_parent r = None \<and> node_type r = Dir \<and> node_depth r = 1"
  proof -
    from wf obtain r where r: "lookup h root = Some r" "node_parent r = None" "node_type r = Dir"
      "node_depth r = 1"
      by (rule wf_root)
    from nr descendants_not_root [OF wf] have "root \<notin> ?S" by simp
    from kept [OF r(1) this] r show ?thesis by auto
  qed
  have nodes_ok: "node_ok h' root a n'" if a: "lookup h' a = Some n'" for a n'
  proof -
    from a gone have out: "a \<notin> ?S" by auto
    from a have "a < length h" using len by (auto dest: lookup_length)
    have alloc: "lookup h a \<noteq> None"
    proof (cases "a = pa")
      case True
      with p(1) show ?thesis by simp
    next
      case False
      with same out a show ?thesis by simp
    qed
    then obtain n where n: "lookup h a = Some n" by auto
    from kept [OF n out] a have n': "node_parent n' = node_parent n" "node_name n' = node_name n"
      "node_depth n' = node_depth n" "node_type n' = node_type n" "a \<noteq> pa \<longrightarrow> n' = n"
      by auto
    have ok: "node_ok h root a n" by (rule wf_node_ok [OF wf n])
    have at_pa: "node_payload n' = Dirhash (hashtable_remove pt (node_name xn))" if "a = pa"
    proof -
      from a p' that
      have "n' = p\<lparr>node_payload := Dirhash (hashtable_remove pt (node_name xn))\<rparr>" by simp
      then show ?thesis by simp
    qed
    txt \<open>The payload.\<close>
    have part1: "case node_payload n' of
         Dirhash t \<Rightarrow> node_type n' = Dir \<and> distinct (map fst t) \<and> (\<forall>e \<in> set t. entry_ok h' a n' e)
       | Content c \<Rightarrow> node_type n' = File"
    proof (cases "node_payload n'")
      case (Content c)
      have "a \<noteq> pa"
      proof
        assume "a = pa"
        from at_pa [OF this] Content show False by simp
      qed
      with n' have "n' = n" by simp
      with ok Content show ?thesis by (simp add: node_ok_def)
    next
      case (Dirhash t')
      obtain t where t: "node_payload n = Dirhash t" "set t' \<subseteq> set t"
        "distinct (map fst t)" "a = pa \<longrightarrow> t' = hashtable_remove pt (node_name xn) \<and> t = pt"
      proof (cases "a = pa")
        case True
        from at_pa [OF True] Dirhash have "t' = hashtable_remove pt (node_name xn)" by simp
        moreover from True n p have "node_payload n = Dirhash pt" by simp
        moreover have "distinct (map fst pt)" by (rule wf_distinct [OF wf p])
        moreover have "set (hashtable_remove pt (node_name xn)) \<subseteq> set pt"
          by (auto simp: hashtable_remove_mem)
        ultimately show ?thesis using that [of pt] by simp
      next
        case False
        with n' have "n' = n" by simp
        with Dirhash have "node_payload n = Dirhash t'" by simp
        moreover from wf_distinct [OF wf n this] have "distinct (map fst t')" .
        ultimately show ?thesis using that [of t'] False by simp
      qed
      have ty: "node_type n' = Dir"
        using wf_tag [OF wf n] t(1) n'(4) by simp
      have dist: "distinct (map fst t')"
      proof (cases "a = pa")
        case True
        with t(4) wf_distinct [OF wf p] show ?thesis by (simp add: hashtable_remove_distinct)
      next
        case False
        with n' Dirhash t(1,3) show ?thesis by simp
      qed
      have entries: "entry_ok h' a n' e" if e: "e \<in> set t'" for e
      proof -
        from e t(2) have "(fst e, snd e) \<in> set t" by auto
        from wf_entry [OF wf n t(1) this] obtain cn where
          cn: "lookup h (snd e) = Some cn" "node_parent cn = Some a" "node_name cn = fst e"
          "node_depth cn = node_depth n + 1" .
        have c_out: "snd e \<notin> ?S"
        proof
          assume "snd e \<in> ?S"
          then consider "snd e = x" | "snd e \<in> descendants h x" by auto
          then show False
          proof cases
            case 1
            with cn x have eq: "a = pa" "fst e = node_name xn" by simp_all
            with t(4) e show False by (simp add: hashtable_remove_mem)
          next
            case 2
            from descendants_deeper [OF wf 2] cn(1,2) have "a = x \<or> a \<in> descendants h x"
              by auto
            with out show False by simp
          qed
        qed
        from kept [OF cn(1) c_out] cn n'(3) show ?thesis
          by (auto simp: entry_ok_def)
      qed
      from ty dist entries Dirhash show ?thesis by simp
    qed
    txt \<open>The parent.\<close>
    have part2: "case node_parent n' of
           None \<Rightarrow> a = root
         | Some q \<Rightarrow>
             a \<noteq> root \<and>
             (case lookup h' q of
                None \<Rightarrow> False
              | Some qn \<Rightarrow>
                  (case node_payload qn of
                     Dirhash qt \<Rightarrow> hashtable_get qt (node_name n') = Some a
                   | Content c \<Rightarrow> False))"
    proof (cases "node_parent n")
      case None
      with wf_root_iff [OF wf n] n'(1) show ?thesis by simp
    next
      case (Some q)
      with wf_root_iff [OF wf n] have ar: "a \<noteq> root" by auto
      obtain q0 qn qt where
        "node_parent n = Some q0" "lookup h q0 = Some qn" "node_payload qn = Dirhash qt"
        "node_type qn = Dir" "hashtable_get qt (node_name n) = Some a"
        "node_depth n = node_depth qn + 1" "q0 \<noteq> a"
        by (rule wf_parent [OF wf n ar])
      with Some have qn: "lookup h q = Some qn" "node_payload qn = Dirhash qt"
        "hashtable_get qt (node_name n) = Some a"
        by simp_all
      have q_out: "q \<notin> ?S" by (rule parent_out [OF n out Some])
      show ?thesis
      proof (cases "q = pa")
        case True
        with qn p have "qt = pt" by simp
        have "node_name n \<noteq> node_name xn"
        proof
          assume "node_name n = node_name xn"
          with qn(3) \<open>qt = pt\<close> px(2) have "a = x" by simp
          with out show False by simp
        qed
        with True p' qn(3) \<open>qt = pt\<close> Some n' ar show ?thesis
          by (simp add: hashtable_get_remove)
      next
        case False
        with same q_out have "lookup h' q = lookup h q" by simp
        with qn Some n' ar show ?thesis by simp
      qed
    qed
    from part1 part2 show ?thesis by (simp add: node_ok_def)
  qed
  have "\<forall>a < length h'. case lookup h' a of None \<Rightarrow> True | Some n \<Rightarrow> node_ok h' root a n"
    using nodes_ok by (auto split: option.splits)
  with root_ok show ?thesis by (simp add: well_formed_def)
qed


section \<open>Recursive deletion\<close>

lemma hashtable_remove_head:
  assumes "distinct (map fst ((k, c) # rest))"
  shows "hashtable_remove ((k, c) # rest) k = rest"
proof -
  from assms have "\<forall>e \<in> set rest. fst e \<noteq> k" by auto
  then have "filter (\<lambda>e. fst e \<noteq> k) rest = rest" by (simp add: filter_id_conv)
  then show ?thesis by (simp add: hashtable_remove_def)
qed

lemma hashtable_remove_size:
  "distinct (map fst t) \<Longrightarrow> hashtable_get t k = Some v
     \<Longrightarrow> hashtable_get_size (hashtable_remove t k) + 1 = hashtable_get_size t"
proof (induction t)
  case Nil
  then show ?case by (simp add: hashtable_get_def)
next
  case (Cons e t)
  show ?case
  proof (cases "fst e = k")
    case True
    obtain k' v' where e: "e = (k', v')" by (cases e)
    with True Cons.prems(1) have "hashtable_remove (e # t) k = t"
      using hashtable_remove_head [of k v' t] by simp
    then show ?thesis by (simp add: hashtable_get_size_def)
  next
    case False
    with Cons show ?thesis
      by (simp add: hashtable_get_def hashtable_get_size_def hashtable_remove_def)
  qed
qed

lemma subtree_removedE:
  assumes "subtree_removed h x h'"
  obtains xn pa p pt where "length h' = length h"
    "lookup h x = Some xn" "node_parent xn = Some pa" "lookup h pa = Some p"
    "node_payload p = Dirhash pt"
    "lookup h' pa = Some (p\<lparr>node_payload := Dirhash (hashtable_remove pt (node_name xn))\<rparr>)"
    "\<forall>a \<in> insert x (descendants h x). lookup h' a = None"
    "\<forall>a. a \<notin> insert x (descendants h x) \<and> a \<noteq> pa \<longrightarrow> lookup h' a = lookup h a"
  using assms unfolding subtree_removed_def by blast

lemma record_payload_same: "node_payload xn = pl \<Longrightarrow> xn\<lparr>node_payload := pl\<rparr> = xn"
  by (cases xn) simp

text \<open>Releasing a leaf removes the subtree that consists of the leaf.\<close>

lemma leaf_removed:
  assumes wf: "well_formed h root" and x: "lookup h x = Some xn" and nr: "x \<noteq> root"
    and leaf: "descendants h x = {}"
  obtains pa p pt where "node_parent xn = Some pa" "lookup h pa = Some p"
    "node_payload p = Dirhash pt"
    "subtree_removed h x
       (free (store h pa (p\<lparr>node_payload := Dirhash (hashtable_remove pt (node_name xn))\<rparr>)) x)"
proof -
  obtain pa p pt where
    p: "node_parent xn = Some pa" "lookup h pa = Some p" "node_payload p = Dirhash pt"
       "node_type p = Dir" "hashtable_get pt (node_name xn) = Some x"
       "node_depth xn = node_depth p + 1" "pa \<noteq> x"
    by (rule wf_parent [OF wf x nr])
  let ?h' = "free (store h pa (p\<lparr>node_payload := Dirhash (hashtable_remove pt (node_name xn))\<rparr>)) x"
  have "length ?h' = length h" by (simp add: free_def store_def)
  moreover have "lookup ?h' pa
      = Some (p\<lparr>node_payload := Dirhash (hashtable_remove pt (node_name xn))\<rparr>)"
    using p(2,7) by (simp add: lookup_free lookup_store)
  moreover have "\<forall>a \<in> insert x (descendants h x). lookup ?h' a = None"
    using leaf by (simp add: lookup_free)
  moreover have "\<forall>a. a \<notin> insert x (descendants h x) \<and> a \<noteq> pa \<longrightarrow> lookup ?h' a = lookup h a"
    using p(2) by (simp add: lookup_free lookup_store)
  ultimately have "subtree_removed h x ?h'"
    using x p(1,2,3) by (auto simp: subtree_removed_def)
  with p(1,2,3) show ?thesis by (rule that)
qed

lemma fs_free_file_removed:
  assumes wf: "well_formed h root" and x: "lookup h x = Some xn" and nr: "x \<noteq> root"
    and isfile: "node_payload xn = Content c"
  shows "\<exists>h'. fs_free_file h x = Inr h' \<and> subtree_removed h x h'"
proof -
  have leaf: "descendants h x = {}" by (rule descendants_file [OF x isfile])
  obtain pa p pt where p: "node_parent xn = Some pa" "lookup h pa = Some p"
    "node_payload p = Dirhash pt"
    "subtree_removed h x
       (free (store h pa (p\<lparr>node_payload := Dirhash (hashtable_remove pt (node_name xn))\<rparr>)) x)"
    by (rule leaf_removed [OF wf x nr leaf])
  have "fs_free_file h x
      = Inr (free (store h pa (p\<lparr>node_payload := Dirhash (hashtable_remove pt (node_name xn))\<rparr>)) x)"
    using x isfile p(1,2,3) by (simp add: fs_free_file_def)
  with p(4) show ?thesis by simp
qed

lemma fs_free_dir_removed:
  assumes wf: "well_formed h root" and x: "lookup h x = Some xn" and nr: "x \<noteq> root"
    and empty: "node_payload xn = Dirhash []"
  shows "\<exists>h'. fs_free_dir h x = Inr (0, h') \<and> subtree_removed h x h'"
proof -
  have leaf: "descendants h x = {}"
    using descendants_unfold [OF x empty] by simp
  obtain pa p pt where p: "node_parent xn = Some pa" "lookup h pa = Some p"
    "node_payload p = Dirhash pt"
    "subtree_removed h x
       (free (store h pa (p\<lparr>node_payload := Dirhash (hashtable_remove pt (node_name xn))\<rparr>)) x)"
    by (rule leaf_removed [OF wf x nr leaf])
  have "fs_free_dir h x
      = Inr (0, free (store h pa (p\<lparr>node_payload := Dirhash (hashtable_remove pt (node_name xn))\<rparr>)) x)"
    using x empty p(1,2,3) by (simp add: fs_free_dir_def hashtable_get_size_def)
  with p(4) show ?thesis by simp
qed

text \<open>What is left of the depth bound after a removal.\<close>

lemma subtree_removed_bound:
  assumes "subtree_removed h x h'" and "\<forall>a n. lookup h a = Some n \<longrightarrow> node_depth n \<le> D"
  shows "\<forall>a n. lookup h' a = Some n \<longrightarrow> node_depth n \<le> D"
proof (intro allI impI)
  fix a n
  assume a: "lookup h' a = Some n"
  obtain xn pa p pt where "length h' = length h"
    "lookup h x = Some xn" "node_parent xn = Some pa"
    and p: "lookup h pa = Some p" "node_payload p = Dirhash pt"
    "lookup h' pa = Some (p\<lparr>node_payload := Dirhash (hashtable_remove pt (node_name xn))\<rparr>)"
    and gone: "\<forall>a \<in> insert x (descendants h x). lookup h' a = None"
    and same: "\<forall>a. a \<notin> insert x (descendants h x) \<and> a \<noteq> pa \<longrightarrow> lookup h' a = lookup h a"
    by (rule subtree_removedE [OF assms(1)])
  show "node_depth n \<le> D"
  proof (cases "a = pa")
    case True
    with a p(3) have "node_depth n = node_depth p" by auto
    with assms(2) p(1) show ?thesis by auto
  next
    case False
    from a gone have "a \<notin> insert x (descendants h x)" by auto
    with same False a have "lookup h a = Some n" by simp
    with assms(2) show ?thesis by blast
  qed
qed

text \<open>Deleting the first child and then the children that are left deletes all children.\<close>

lemma children_removed_step:
  assumes wf: "well_formed h root" and x: "lookup h x = Some xn"
    and t: "node_payload xn = Dirhash ((k, c) # rest)"
    and rm: "subtree_removed h c h1"
    and cr: "children_removed h1 x h2"
  shows "children_removed h x h2"
proof -
  let ?Sc = "insert c (descendants h c)"
  have kc: "(k, c) \<in> set ((k, c) # rest)" by simp
  from wf_entry [OF wf x t kc] obtain cn where
    cn: "lookup h c = Some cn" "node_parent cn = Some x" "node_name cn = k" .
  have dist: "distinct (map fst ((k, c) # rest))" by (rule wf_distinct [OF wf x t])
  from rm cn x t have len1: "length h1 = length h"
    and x1: "lookup h1 x = Some (xn\<lparr>node_payload := Dirhash (hashtable_remove ((k, c) # rest) k)\<rparr>)"
    and gone1: "\<forall>a \<in> ?Sc. lookup h1 a = None"
    and same1: "\<forall>a. a \<notin> ?Sc \<and> a \<noteq> x \<longrightarrow> lookup h1 a = lookup h a"
    by (auto simp: subtree_removed_def)
  from x1 hashtable_remove_head [OF dist]
  have x1': "lookup h1 x = Some (xn\<lparr>node_payload := Dirhash rest\<rparr>)" by simp
  from cr x1' have len2: "length h2 = length h1"
    and x2: "lookup h2 x = Some (xn\<lparr>node_payload := Dirhash []\<rparr>)"
    and gone2: "\<forall>a \<in> descendants h1 x. lookup h2 a = None"
    and same2: "\<forall>a. a \<notin> descendants h1 x \<and> a \<noteq> x \<longrightarrow> lookup h2 a = lookup h1 a"
    by (auto simp: children_removed_def)
  have c_desc: "c \<in> descendants h x" by (rule descendants.child [OF x t kc])
  have Sc_sub: "?Sc \<subseteq> descendants h x"
    using c_desc descendants_trans [OF _ c_desc] by auto
  have x_self: "x \<notin> descendants h x" by (rule descendants_not_self [OF wf])
  have mono: "a \<in> descendants h x" if "a \<in> descendants h1 x" for a
    using that
  proof (induction rule: descendants.induct)
    case (child n1 t1 k' a)
    with x1' have "(k', a) \<in> set rest" by auto
    then have "(k', a) \<in> set ((k, c) # rest)" by simp
    from descendants.child [OF x t this] show ?case .
  next
    case (below y yn ty k' a)
    from below.IH x_self have "y \<noteq> x" by auto
    moreover from below.hyps(2) gone1 have "y \<notin> ?Sc" by auto
    ultimately have "lookup h y = Some yn" using same1 below.hyps(2) by simp
    from descendants.below [OF below.IH this below.hyps(3,4)] show ?case .
  qed
  have still: "lookup h1 a \<noteq> None \<longrightarrow> a \<in> descendants h1 x" if "a \<in> descendants h x" for a
    using that
  proof (induction rule: descendants.induct)
    case (child n t' k' a)
    with x t have in_t: "(k', a) \<in> set ((k, c) # rest)" by simp
    show ?case
    proof
      assume "lookup h1 a \<noteq> None"
      with gone1 have "a \<noteq> c" by auto
      with in_t have "(k', a) \<in> set rest" by auto
      with x1' show "a \<in> descendants h1 x"
        by (auto intro: descendants.child [where n = "xn\<lparr>node_payload := Dirhash rest\<rparr>"])
    qed
  next
    case (below y yn ty k' a)
    show ?case
    proof
      assume alive: "lookup h1 a \<noteq> None"
      have "y \<notin> ?Sc"
      proof
        assume "y \<in> ?Sc"
        then have "y = c \<or> y \<in> descendants h c" by simp
        from descendants_child_of [OF below.hyps(2,3,4) this] gone1 alive
        show False by auto
      qed
      moreover from below.hyps(1) x_self have "y \<noteq> x" by auto
      ultimately have y1: "lookup h1 y = Some yn" using same1 below.hyps(2) by simp
      with below.IH have "y \<in> descendants h1 x" by simp
      from descendants.below [OF this y1 below.hyps(3,4)] show "a \<in> descendants h1 x" .
    qed
  qed
  have gone: "\<forall>a \<in> descendants h x. lookup h2 a = None"
  proof
    fix a
    assume a: "a \<in> descendants h x"
    with x_self have ax: "a \<noteq> x" by auto
    show "lookup h2 a = None"
    proof (cases "a \<in> descendants h1 x")
      case True
      with gone2 show ?thesis by simp
    next
      case False
      with still [OF a] have "lookup h1 a = None" by auto
      with same2 False ax show ?thesis by simp
    qed
  qed
  have same: "\<forall>a. a \<notin> descendants h x \<and> a \<noteq> x \<longrightarrow> lookup h2 a = lookup h a"
  proof (intro allI impI)
    fix a
    assume a: "a \<notin> descendants h x \<and> a \<noteq> x"
    with mono have "a \<notin> descendants h1 x" by auto
    with same2 a have "lookup h2 a = lookup h1 a" by simp
    also from a Sc_sub same1 have "lookup h1 a = lookup h a" by auto
    finally show "lookup h2 a = lookup h a" .
  qed
  from len1 len2 x x2 gone same show ?thesis
    by (simp add: children_removed_def)
qed

text \<open>Releasing the directory after its children gives the removal of the whole subtree.\<close>

lemma subtree_removed_after_children:
  assumes wf: "well_formed h root" and x: "lookup h x = Some xn" and nr: "x \<noteq> root"
    and cr: "children_removed h x h1"
    and rm: "subtree_removed h1 x h2"
  shows "subtree_removed h x h2"
proof -
  obtain pa p pt where
    p: "node_parent xn = Some pa" "lookup h pa = Some p" "node_payload p = Dirhash pt"
       "node_type p = Dir" "hashtable_get pt (node_name xn) = Some x"
       "node_depth xn = node_depth p + 1" "pa \<noteq> x"
    by (rule wf_parent [OF wf x nr])
  from cr x have len1: "length h1 = length h"
    and x1: "lookup h1 x = Some (xn\<lparr>node_payload := Dirhash []\<rparr>)"
    and gone1: "\<forall>a \<in> descendants h x. lookup h1 a = None"
    and same1: "\<forall>a. a \<notin> descendants h x \<and> a \<noteq> x \<longrightarrow> lookup h1 a = lookup h a"
    by (auto simp: children_removed_def)
  have pa_out: "pa \<notin> descendants h x"
  proof
    assume "pa \<in> descendants h x"
    from descendants_deeper [OF wf this] x p(2,6) show False by auto
  qed
  with same1 p(2,7) have p1: "lookup h1 pa = Some p" by simp
  have leaf1: "descendants h1 x = {}"
    using descendants_unfold [OF x1, of "[]"] by simp
  from rm x1 p(1) p1 p(3) leaf1 have len2: "length h2 = length h1"
    and p2: "lookup h2 pa = Some (p\<lparr>node_payload := Dirhash (hashtable_remove pt (node_name xn))\<rparr>)"
    and gone2: "lookup h2 x = None"
    and same2: "\<forall>a. a \<noteq> x \<and> a \<noteq> pa \<longrightarrow> lookup h2 a = lookup h1 a"
    by (auto simp: subtree_removed_def)
  have "\<forall>a \<in> insert x (descendants h x). lookup h2 a = None"
  proof
    fix a
    assume "a \<in> insert x (descendants h x)"
    then consider "a = x" | "a \<in> descendants h x" "a \<noteq> x" by auto
    then show "lookup h2 a = None"
    proof cases
      case 1
      with gone2 show ?thesis by simp
    next
      case 2
      with pa_out have "a \<noteq> pa" by auto
      with same2 2 gone1 show ?thesis by simp
    qed
  qed
  moreover have "\<forall>a. a \<notin> insert x (descendants h x) \<and> a \<noteq> pa \<longrightarrow> lookup h2 a = lookup h a"
    using same1 same2 by simp
  ultimately show ?thesis
    using len1 len2 x p(1,2,3) p2 by (auto simp: subtree_removed_def)
qed


lemma children_removed_none:
  assumes "lookup h x = Some xn" and "node_payload xn = Dirhash []"
  shows "children_removed h x h"
proof -
  have "descendants h x = {}"
    using descendants_unfold [OF assms] by simp
  moreover have "xn\<lparr>node_payload := Dirhash []\<rparr> = xn"
    by (rule record_payload_same [OF assms(2)])
  ultimately show ?thesis
    using assms(1) by (simp add: children_removed_def)
qed

text \<open>
  The loop of \<open>fs_delete_r\<close> on a directory \<open>x\<close> (the root included), given that the
  recursive calls on deeper nodes do what they should.
\<close>

lemma fs_delete_r_loop_total:
  assumes rec: "\<And>h c cn. well_formed h root \<Longrightarrow>
        \<forall>a n. lookup h a = Some n \<longrightarrow> node_depth n \<le> D \<Longrightarrow>
        lookup h c = Some cn \<Longrightarrow> c \<noteq> root \<Longrightarrow> dx < node_depth cn \<Longrightarrow>
        \<exists>F h'. (\<forall>fuel \<ge> F. fs_delete_r fuel h c = Inr h') \<and> subtree_removed h c h'"
  shows "well_formed h root \<Longrightarrow> \<forall>a n. lookup h a = Some n \<longrightarrow> node_depth n \<le> D \<Longrightarrow>
     lookup h x = Some xn \<Longrightarrow> node_depth xn = dx \<Longrightarrow> node_payload xn = Dirhash t \<Longrightarrow>
     \<exists>F h'. (\<forall>fuel \<ge> F. fs_delete_r_loop fuel h x = Inr h')
             \<and> children_removed h x h' \<and> well_formed h' root"
proof (induction "length t" arbitrary: h xn t)
  case 0
  then have t: "node_payload xn = Dirhash []" by simp
  have "\<forall>fuel \<ge> Suc 0. fs_delete_r_loop fuel h x = Inr h"
  proof (intro allI impI)
    fix fuel :: nat
    assume "Suc 0 \<le> fuel"
    then obtain f where "fuel = Suc f" by (cases fuel) simp_all
    with "0.prems"(3) t show "fs_delete_r_loop fuel h x = Inr h"
      by (simp add: hashtable_iterate_def)
  qed
  with children_removed_none [OF "0.prems"(3) t] "0.prems"(1) show ?case by blast
next
  case (Suc j)
  note wf = Suc.prems(1) and bound = Suc.prems(2) and x = Suc.prems(3)
    and dx = Suc.prems(4) and t = Suc.prems(5)
  from Suc.hyps(2) obtain k c rest where t_eq: "t = (k, c) # rest"
    by (cases t) auto
  with Suc.hyps(2) have j: "j = length rest" by simp
  from t t_eq have t': "node_payload xn = Dirhash ((k, c) # rest)" by simp
  have kc: "(k, c) \<in> set ((k, c) # rest)" by simp
  from wf_entry [OF wf x t' kc] obtain cn where
    cn: "lookup h c = Some cn" "node_parent cn = Some x" "node_name cn = k"
    "node_depth cn = node_depth xn + 1" .
  from cn(2) wf_root_iff [OF wf cn(1)] have c_nr: "c \<noteq> root" by auto
  from cn(4) dx have deeper: "dx < node_depth cn" by simp
  from rec [OF wf bound cn(1) c_nr deeper] obtain F1 h1 where
    run1: "\<forall>fuel \<ge> F1. fs_delete_r fuel h c = Inr h1" and rm1: "subtree_removed h c h1"
    by blast
  have wf1: "well_formed h1 root" by (rule subtree_removed_wf [OF wf c_nr rm1])
  have bound1: "\<forall>a n. lookup h1 a = Some n \<longrightarrow> node_depth n \<le> D"
    by (rule subtree_removed_bound [OF rm1 bound])
  have dist: "distinct (map fst ((k, c) # rest))" by (rule wf_distinct [OF wf x t'])
  from rm1 cn x t' have "lookup h1 x
      = Some (xn\<lparr>node_payload := Dirhash (hashtable_remove ((k, c) # rest) k)\<rparr>)"
    by (auto simp: subtree_removed_def)
  with hashtable_remove_head [OF dist]
  have x1: "lookup h1 x = Some (xn\<lparr>node_payload := Dirhash rest\<rparr>)" by simp
  have dx1: "node_depth (xn\<lparr>node_payload := Dirhash rest\<rparr>) = dx" using dx by simp
  have t1: "node_payload (xn\<lparr>node_payload := Dirhash rest\<rparr>) = Dirhash rest" by simp
  from Suc.hyps(1) [OF j wf1 bound1 x1 dx1 t1] obtain F2 h2 where
    run2: "\<forall>fuel \<ge> F2. fs_delete_r_loop fuel h1 x = Inr h2"
    and cr2: "children_removed h1 x h2" and wf2: "well_formed h2 root"
    by blast
  have "\<forall>fuel \<ge> Suc (max F1 F2). fs_delete_r_loop fuel h x = Inr h2"
  proof (intro allI impI)
    fix fuel :: nat
    assume "Suc (max F1 F2) \<le> fuel"
    then obtain f where f: "fuel = Suc f" "F1 \<le> f" "F2 \<le> f" by (cases fuel) simp_all
    from run1 f(2) have 1: "fs_delete_r f h c = Inr h1" by blast
    from run2 f(3) have 2: "fs_delete_r_loop f h1 x = Inr h2" by blast
    show "fs_delete_r_loop fuel h x = Inr h2"
      unfolding f(1) fs_delete_r_loop.simps
      using x t' 1 2
      by (simp add: hashtable_iterate_def del: fs_delete_r.simps fs_delete_r_loop.simps)
  qed
  moreover have "children_removed h x h2"
    by (rule children_removed_step [OF wf x t' rm1 cr2])
  ultimately show ?case using wf2 by blast
qed

lemma fs_delete_r_total:
  "well_formed h root \<Longrightarrow> \<forall>a n. lookup h a = Some n \<longrightarrow> node_depth n \<le> D \<Longrightarrow>
   lookup h x = Some xn \<Longrightarrow> x \<noteq> root \<Longrightarrow>
   \<exists>F h'. (\<forall>fuel \<ge> F. fs_delete_r fuel h x = Inr h') \<and> subtree_removed h x h'"
proof (induction "D - node_depth xn" arbitrary: h x xn rule: less_induct)
  case less
  note wf = less.prems(1) and bound = less.prems(2) and x = less.prems(3) and nr = less.prems(4)
  show ?case
  proof (cases "node_payload xn")
    case (Content c)
    with wf_tag [OF wf x] have ty: "node_type xn \<noteq> Dir" by auto
    from fs_free_file_removed [OF wf x nr Content] obtain h' where
      h': "fs_free_file h x = Inr h'" "subtree_removed h x h'"
      by blast
    have "\<forall>fuel \<ge> Suc 0. fs_delete_r fuel h x = Inr h'"
    proof (intro allI impI)
      fix fuel :: nat
      assume "Suc 0 \<le> fuel"
      then obtain f where "fuel = Suc f" by (cases fuel) simp_all
      with x ty h'(1) show "fs_delete_r fuel h x = Inr h'" by simp
    qed
    with h'(2) show ?thesis by blast
  next
    case (Dirhash t)
    with wf_tag [OF wf x] have ty: "node_type xn = Dir" by auto
    have rec: "\<exists>F h'. (\<forall>fuel \<ge> F. fs_delete_r fuel g c = Inr h') \<and> subtree_removed g c h'"
      if "well_formed g root" "\<forall>a n. lookup g a = Some n \<longrightarrow> node_depth n \<le> D"
        "lookup g c = Some cn" "c \<noteq> root" "node_depth xn < node_depth cn" for g c cn
    proof -
      from that(2,3) have "node_depth cn \<le> D" by blast
      with that(5) have "D - node_depth cn < D - node_depth xn" by simp
      from less.hyps [OF this that(1,2,3,4)] show ?thesis .
    qed
    have loop: "\<exists>F h1. (\<forall>fuel \<ge> F.
            (if hashtable_get_size t > 0 then fs_delete_r_loop fuel h x else Inr h) = Inr h1)
          \<and> children_removed h x h1 \<and> well_formed h1 root"
    proof (cases "t = []")
      case True
      with Dirhash have "node_payload xn = Dirhash []" by simp
      from children_removed_none [OF x this] wf True show ?thesis
        by (auto simp: hashtable_get_size_def)
    next
      case False
      from fs_delete_r_loop_total [OF rec wf bound x refl Dirhash] False show ?thesis
        by (simp add: hashtable_get_size_def)
    qed
    then obtain F1 h1 where
      run1: "\<forall>fuel \<ge> F1.
            (if hashtable_get_size t > 0 then fs_delete_r_loop fuel h x else Inr h) = Inr h1"
      and cr: "children_removed h x h1" and wf1: "well_formed h1 root"
      by blast
    from cr x have x1: "lookup h1 x = Some (xn\<lparr>node_payload := Dirhash []\<rparr>)"
      by (auto simp: children_removed_def)
    have e1: "node_payload (xn\<lparr>node_payload := Dirhash []\<rparr>) = Dirhash []" by simp
    from fs_free_dir_removed [OF wf1 x1 nr e1] obtain h2 where
      h2: "fs_free_dir h1 x = Inr (0, h2)" "subtree_removed h1 x h2"
      by blast
    have "\<forall>fuel \<ge> Suc F1. fs_delete_r fuel h x = Inr h2"
    proof (intro allI impI)
      fix fuel :: nat
      assume "Suc F1 \<le> fuel"
      then obtain f where f: "fuel = Suc f" "F1 \<le> f" by (cases fuel) simp_all
      from run1 f(2)
      have 1: "(if hashtable_get_size t > 0 then fs_delete_r_loop f h x else Inr h) = Inr h1"
        by blast
      show "fs_delete_r fuel h x = Inr h2"
        unfolding f(1) fs_delete_r.simps
        using x ty Dirhash 1 h2(1)
        by (simp del: fs_delete_r.simps fs_delete_r_loop.simps)
    qed
    moreover have "subtree_removed h x h2"
      by (rule subtree_removed_after_children [OF wf x nr cr h2(2)])
    ultimately show ?thesis by blast
  qed
qed


lemma removed_kept:
  assumes rm: "subtree_removed h x h'" and a: "lookup h a = Some n"
    and out: "a \<notin> insert x (descendants h x)"
  shows "\<exists>n'. lookup h' a = Some n' \<and> node_parent n' = node_parent n
              \<and> node_name n' = node_name n \<and> node_depth n' = node_depth n
              \<and> node_type n' = node_type n"
proof -
  obtain xn pa p pt where "length h' = length h"
    "lookup h x = Some xn" "node_parent xn = Some pa"
    and p: "lookup h pa = Some p" "node_payload p = Dirhash pt"
    "lookup h' pa = Some (p\<lparr>node_payload := Dirhash (hashtable_remove pt (node_name xn))\<rparr>)"
    and gone: "\<forall>a \<in> insert x (descendants h x). lookup h' a = None"
    and same: "\<forall>a. a \<notin> insert x (descendants h x) \<and> a \<noteq> pa \<longrightarrow> lookup h' a = lookup h a"
    by (rule subtree_removedE [OF rm])
  show ?thesis
  proof (cases "a = pa")
    case True
    with a p(1,3) show ?thesis by simp
  next
    case False
    with same out a show ?thesis by simp
  qed
qed

lemma parent_outside:
  assumes wf: "well_formed h root" and an: "lookup h a = Some n"
    and a_out: "a \<notin> insert x (descendants h x)" and nq: "node_parent n = Some q"
  shows "q \<notin> insert x (descendants h x)"
proof
  assume q: "q \<in> insert x (descendants h x)"
  from nq wf_root_iff [OF wf an] have ar: "a \<noteq> root" by auto
  obtain q0 qn qt where
    "node_parent n = Some q0" "lookup h q0 = Some qn" "node_payload qn = Dirhash qt"
    "node_type qn = Dir" "hashtable_get qt (node_name n) = Some a"
    "node_depth n = node_depth qn + 1" "q0 \<noteq> a"
    by (rule wf_parent [OF wf an ar])
  with nq have qn: "lookup h q = Some qn" "node_payload qn = Dirhash qt"
    "(node_name n, a) \<in> set qt"
    by (simp_all add: hashtable_get_mem)
  from q have "q = x \<or> q \<in> descendants h x" by simp
  from descendants_child_of [OF qn this] a_out show False by simp
qed

lemma names_to_removed:
  assumes wf: "well_formed h root" and rm: "subtree_removed h x h'"
  shows "lookup h a = Some n \<Longrightarrow> a \<notin> insert x (descendants h x)
           \<Longrightarrow> names_to k h' a = names_to k h a"
proof (induction k arbitrary: a n)
  case 0
  show ?case by simp
next
  case (Suc k)
  from removed_kept [OF rm Suc.prems] obtain n' where
    n': "lookup h' a = Some n'" "node_parent n' = node_parent n" "node_name n' = node_name n"
    by blast
  show ?case
  proof (cases "node_parent n")
    case None
    with n' Suc.prems(1) show ?thesis by simp
  next
    case (Some q)
    have q_out: "q \<notin> insert x (descendants h x)"
      by (rule parent_outside [OF wf Suc.prems Some])
    from Some wf_root_iff [OF wf Suc.prems(1)] have ar: "a \<noteq> root" by auto
    obtain q0 qn qt where
      "node_parent n = Some q0" "lookup h q0 = Some qn" "node_payload qn = Dirhash qt"
      "node_type qn = Dir" "hashtable_get qt (node_name n) = Some a"
      "node_depth n = node_depth qn + 1" "q0 \<noteq> a"
      by (rule wf_parent [OF wf Suc.prems(1) ar])
    with Some have "lookup h q = Some qn" by simp
    from Suc.IH [OF this q_out] have "names_to k h' q = names_to k h q" .
    with Some n' Suc.prems(1) show ?thesis by simp
  qed
qed

text \<open>
  C3 (amended). In a well-formed tree, for every node other than the root,
  \<open>fs_delete_r\<close> returns (given enough fuel) and never fails: the cells of the node and
  of every node below it are free, the tree is still well formed, the table of the former
  parent has exactly one entry less, and every cell other than these and the parent's is
  unchanged. If the names on the node's former path are clean, that path (the string
  \<open>fs_get_path\<close> returned before the deletion) no longer resolves from the root.
\<close>

theorem fs_delete_r_spec:
  assumes "well_formed h root" and "lookup h node = Some n" and "node \<noteq> root"
  shows "\<exists>F h' path.
       (\<forall>fuel \<ge> F. fs_delete_r fuel h node = Inr h' \<and> fs_get_path fuel h node = Inr path)
     \<and> well_formed h' root
     \<and> (\<forall>a \<in> insert node (descendants h node). lookup h' a = None)
     \<and> (\<exists>pa p pt pt'. node_parent n = Some pa \<and> lookup h pa = Some p
           \<and> node_payload p = Dirhash pt
           \<and> lookup h' pa = Some (p\<lparr>node_payload := Dirhash pt'\<rparr>)
           \<and> hashtable_get_size pt' + 1 = hashtable_get_size pt
           \<and> (\<forall>a. a \<notin> insert node (descendants h node) \<and> a \<noteq> pa
                  \<longrightarrow> lookup h' a = lookup h a))
     \<and> (clean_names (path_names h node)
           \<longrightarrow> (\<forall>olds. enter_path h' root (Some path) False olds = Inr (None, None)))"
proof -
  note wf = assms(1) and x = assms(2) and nr = assms(3)
  obtain D where D: "\<forall>a n. lookup h a = Some n \<longrightarrow> node_depth n \<le> D"
    using depth_bound by blast
  from fs_delete_r_total [OF wf D x nr] obtain F h' where
    run: "\<forall>fuel \<ge> F. fs_delete_r fuel h node = Inr h'" and rm: "subtree_removed h node h'"
    by blast
  have wf': "well_formed h' root" by (rule subtree_removed_wf [OF wf nr rm])
  obtain pa p pt where
    p: "node_parent n = Some pa" "lookup h pa = Some p" "node_payload p = Dirhash pt"
       "node_type p = Dir" "hashtable_get pt (node_name n) = Some node"
       "node_depth n = node_depth p + 1" "pa \<noteq> node"
    by (rule wf_parent [OF wf x nr])
  let ?pt' = "hashtable_remove pt (node_name n)"
  from rm x p(1,2,3) have
    p': "lookup h' pa = Some (p\<lparr>node_payload := Dirhash ?pt'\<rparr>)"
    and gone: "\<forall>a \<in> insert node (descendants h node). lookup h' a = None"
    and same: "\<forall>a. a \<notin> insert node (descendants h node) \<and> a \<noteq> pa \<longrightarrow> lookup h' a = lookup h a"
    by (auto simp: subtree_removed_def)
  have size: "hashtable_get_size ?pt' + 1 = hashtable_get_size pt"
    by (rule hashtable_remove_size [OF wf_distinct [OF wf p(2,3)] p(5)])
  let ?path = "render_path (path_names h node)"
  have gp: "\<forall>fuel \<ge> node_depth n. fs_get_path fuel h node = Inr ?path"
    using fs_get_path_names [OF wf x nr] by simp
  have both: "\<forall>fuel \<ge> max F (node_depth n).
      fs_delete_r fuel h node = Inr h' \<and> fs_get_path fuel h node = Inr ?path"
    using run gp by simp
  have unresolvable: "enter_path h' root (Some ?path) False olds = Inr (None, None)"
    if clean: "clean_names (path_names h node)" for olds
  proof -
    let ?up = "names_to (node_depth p) h pa"
    from p(6) have d: "node_depth n = Suc (node_depth p)" by simp
    have ns: "path_names h node = ?up @ [node_name n]"
      using x by (simp add: path_names_def d names_to_step [OF x p(1)] del: names_to.simps)
    have pa_out: "pa \<notin> insert node (descendants h node)"
    proof
      assume "pa \<in> insert node (descendants h node)"
      with p(7) have "pa \<in> descendants h node" by simp
      from descendants_deeper [OF wf this] x p(2,6) show False by auto
    qed
    have "names_to (node_depth p) h' pa = ?up"
      by (rule names_to_removed [OF wf rm p(2) pa_out])
    moreover have "resolve h' root (names_to (node_depth p) h' pa) = Some pa"
      using resolve_names_to [OF wf' p', of "node_depth p"] by simp
    ultimately have res: "resolve h' root ?up = Some pa" by simp
    have tk: "path_tokens (Some ?path) olds = ?up @ [node_name n]"
      using path_tokens_render [OF clean] ns by simp
    have "enter_path h' root (Some ?path) False olds
        = enter_tokens h' False root (?up @ [node_name n])"
      unfolding enter_path_tokens tk by (cases ?up) simp_all
    also have "\<dots> = enter_tokens h' False pa [node_name n]"
      by (rule enter_tokens_resolved [OF res])
    also have "\<dots> = Inr (None, None)"
      using p' p(4) by (simp add: fs_get_type_def fs_find_in_dir_def hashtable_get_remove)
    finally show ?thesis .
  qed
  have parent_part: "\<exists>pa p pt pt'. node_parent n = Some pa \<and> lookup h pa = Some p
           \<and> node_payload p = Dirhash pt
           \<and> lookup h' pa = Some (p\<lparr>node_payload := Dirhash pt'\<rparr>)
           \<and> hashtable_get_size pt' + 1 = hashtable_get_size pt
           \<and> (\<forall>a. a \<notin> insert node (descendants h node) \<and> a \<noteq> pa
                  \<longrightarrow> lookup h' a = lookup h a)"
    using p(1,2,3) p' size same by blast
  show ?thesis
    apply (rule exI [of _ "max F (node_depth n)"], rule exI [of _ h'], rule exI [of _ ?path])
    apply (intro conjI)
    subgoal by (rule both)
    subgoal by (rule wf')
    subgoal by (rule gone)
    subgoal by (rule parent_part)
    subgoal using unresolvable by blast
    done
qed

theorem fs_delete_r_spec_witness:
  "\<exists>F h'. (\<forall>fuel \<ge> F. fs_delete_r fuel log_tree 1 = Inr h' \<and> fs_get_path fuel log_tree 1 = Inr ''/log'')
     \<and> well_formed h' 0 \<and> lookup h' 1 = None \<and> lookup h' 2 = None
     \<and> enter_path h' 0 (Some ''/log'') False [] = Inr (None, None)"
proof -
  let ?n = "\<lparr>node_name = ''log'', node_depth = 2, node_parent = Some 0,
       node_type = Dir, node_payload = Dirhash [(''log'', 2)]\<rparr>"
  have 1: "well_formed log_tree 0" by (rule example_heaps_wf)
  have 2: "lookup log_tree 1 = Some ?n" by (simp add: log_tree_def lookup_def)
  have 3: "(1::nat) \<noteq> 0" by simp
  have names: "path_names log_tree 1 = [''log'']"
    by (simp add: path_names_def log_tree_def lookup_def numeral_2_eq_2)
  then have clean: "clean_names (path_names log_tree 1)"
    by (simp add: clean_names_def delim_first_def)
  have desc: "2 \<in> descendants log_tree 1"
    by (rule descendants.child [OF 2, of "[(''log'', 2)]" "''log''"]) simp_all
  have gp: "fs_get_path 2 log_tree 1 = Inr ''/log''"
    by (simp add: fs_get_path_def log_tree_def lookup_def numeral_2_eq_2)
  from fs_delete_r_spec [OF 1 2 3] obtain F h' path where
    r: "\<forall>fuel \<ge> F. fs_delete_r fuel log_tree 1 = Inr h' \<and> fs_get_path fuel log_tree 1 = Inr path"
      "well_formed h' 0"
      "\<forall>a \<in> insert 1 (descendants log_tree 1). lookup h' a = None"
      "clean_names (path_names log_tree 1)
           \<longrightarrow> (\<forall>olds. enter_path h' 0 (Some path) False olds = Inr (None, None))"
    by blast
  have "fs_get_path (max F 2) log_tree 1 = Inr path" using r(1) by simp
  moreover have "fs_get_path (max F 2) log_tree 1 = Inr ''/log''"
    using fs_get_path_names [OF 1 2 3, of "max F 2"] names by simp
  ultimately have path: "path = ''/log''" by simp
  from r(3) desc have "lookup h' 1 = None" "lookup h' 2 = None" by simp_all
  with r(1,2,4) clean path show ?thesis by blast
qed

text \<open>
  C3 as stated fails on the root, which is a node of every tree: after the children are
  deleted, \<open>fs_free_dir\<close> reads the table of \<open>dir->parent\<close>, which is \<open>NULL\<close>.
  And the former path of a deleted node may still resolve when a name holds a separator:
  once the file \<open>a/b\<close> of the root is deleted, its path \<open>/a/b\<close> leads to the file
  \<open>b\<close> of the directory \<open>a\<close>.
\<close>

theorem fs_delete_r_spec_counterexample:
  "fs_delete_r 1 root_only 0 = Inl NullDeref
   \<and> fs_delete_r 10 log_tree 0 = Inl NullDeref
   \<and> well_formed alias_tree 0
   \<and> fs_get_path 2 alias_tree 3 = Inr ''/a/b''
   \<and> fs_delete_r 1 alias_tree 3 = Inr alias_tree_after
   \<and> enter_path alias_tree_after 0 (Some ''/a/b'') False [] = Inr (Some 2, None)"
  by (simp add: root_only_def log_tree_def alias_tree_def alias_tree_after_def
        lookup_def malloc_or_die_def store_def free_def
        hashtable_get_def hashtable_get_size_def hashtable_create_def hashtable_remove_def
        hashtable_iterate_def well_formed_def node_ok_def entry_ok_def All_less_Suc
        fs_get_path_def fs_create_def fs_free_file_def fs_free_dir_def
        enter_path_def strtok_def delim_first_def delim_next_def
        fs_get_type_def fs_find_in_dir_def eval_nat_numeral)

section \<open>Recursive search\<close>

lemma hashtable_iterate_at:
  "i < length t \<Longrightarrow> hashtable_iterate t i = (Some (snd (t ! i)), Suc i)"
  "length t \<le> i \<Longrightarrow> hashtable_iterate t i = (None, i)"
  by (simp_all add: hashtable_iterate_def)


text \<open>The path of a node below a child \<open>c\<close> of \<open>d\<close> starts with the path of \<open>c\<close>.\<close>

lemma subtree_prefix:
  assumes wf: "well_formed h root" and d: "lookup h d = Some dn" "node_payload dn = Dirhash t"
    and kc: "(k, c) \<in> set t" and x: "x \<in> insert c (descendants h c)"
  shows "\<exists>xn rest. lookup h x = Some xn
           \<and> names_to (node_depth xn) h x = names_to (node_depth dn) h d @ k # rest"
proof -
  from wf_entry [OF wf d kc] obtain cn where
    cn: "lookup h c = Some cn" "node_parent cn = Some d" "node_name cn = k"
    "node_depth cn = node_depth dn + 1" .
  from cn(4) have dc: "node_depth cn = Suc (node_depth dn)" by simp
  have base: "names_to (node_depth cn) h c = names_to (node_depth dn) h d @ k # []"
    unfolding dc names_to_step [OF cn(1,2)] using cn(3) by simp
  have below: "\<exists>xn rest. lookup h x = Some xn
           \<and> names_to (node_depth xn) h x = names_to (node_depth dn) h d @ k # rest"
    if "x \<in> descendants h c" for x
    using that
  proof (induction rule: descendants.induct)
    case (child n t' k' x)
    from wf_entry [OF wf child] obtain xn where
      xn: "lookup h x = Some xn" "node_parent xn = Some c" "node_name xn = k'"
      "node_depth xn = node_depth n + 1" .
    from child(1) cn(1) have "n = cn" by simp
    with xn(4) have dx: "node_depth xn = Suc (node_depth cn)" by simp
    have "names_to (node_depth xn) h x = names_to (node_depth dn) h d @ k # [k']"
      unfolding dx names_to_step [OF xn(1,2)] using base xn(3) by simp
    with xn(1) show ?case by blast
  next
    case (below y yn ty k' x)
    from wf_entry [OF wf below.hyps(2,3,4)] obtain xn where
      xn: "lookup h x = Some xn" "node_parent xn = Some y" "node_name xn = k'"
      "node_depth xn = node_depth yn + 1" .
    from below.IH below.hyps(2) obtain rest where
      y: "names_to (node_depth yn) h y = names_to (node_depth dn) h d @ k # rest"
      by auto
    from xn(4) have dx: "node_depth xn = Suc (node_depth yn)" by simp
    have "names_to (node_depth xn) h x = names_to (node_depth dn) h d @ k # (rest @ [k'])"
      unfolding dx names_to_step [OF xn(1,2)] using y xn(3) by simp
    with xn(1) show ?case by blast
  qed
  from x show ?thesis
  proof
    assume "x = c"
    with cn(1) base show ?thesis by blast
  next
    assume "x \<in> descendants h c"
    then show ?thesis by (rule below)
  qed
qed

lemma subtrees_disjoint:
  assumes wf: "well_formed h root" and d: "lookup h d = Some dn" "node_payload dn = Dirhash t"
    and e1: "(k1, c1) \<in> set t" and e2: "(k2, c2) \<in> set t" and ne: "k1 \<noteq> k2"
  shows "insert c1 (descendants h c1) \<inter> insert c2 (descendants h c2) = {}"
proof -
  have False if x1: "x \<in> insert c1 (descendants h c1)" and x2: "x \<in> insert c2 (descendants h c2)"
    for x
  proof -
    from subtree_prefix [OF wf d e1 x1] obtain xn rest1 where
      1: "lookup h x = Some xn"
      "names_to (node_depth xn) h x = names_to (node_depth dn) h d @ k1 # rest1"
      by blast
    from subtree_prefix [OF wf d e2 x2] 1(1) obtain rest2 where
      2: "names_to (node_depth xn) h x = names_to (node_depth dn) h d @ k2 # rest2"
      by auto
    from 1(2) 2 ne show False by simp
  qed
  then show ?thesis by blast
qed

lemma named_subset: "named h name S \<subseteq> S"
  by (auto simp: named_def)

lemma fs_find_r_loop_total:
  assumes d: "lookup h d = Some n" "node_payload n = Dirhash t"
    and dist: "distinct (map fst t)"
    and disj: "\<And>e1 e2. e1 \<in> set t \<Longrightarrow> e2 \<in> set t \<Longrightarrow> fst e1 \<noteq> fst e2 \<Longrightarrow>
        insert (snd e1) (descendants h (snd e1)) \<inter> insert (snd e2) (descendants h (snd e2)) = {}"
    and kids: "\<And>e. e \<in> set t \<Longrightarrow> \<exists>cn. lookup h (snd e) = Some cn
        \<and> snd e \<notin> descendants h (snd e) \<and>
        (if node_type cn = Dir
         then \<exists>F xs. (\<forall>fuel \<ge> F. \<forall>arr. fs_find_r fuel h (snd e) name arr = Inr (arr @ xs))
                     \<and> set xs = named h name (descendants h (snd e)) \<and> distinct xs
         else descendants h (snd e) = {})"
  shows "\<exists>F xs. (\<forall>fuel \<ge> F. \<forall>arr. fs_find_r_loop fuel h d name i arr = Inr (arr @ xs))
            \<and> set xs = named h name (\<Union>e \<in> set (drop i t). insert (snd e) (descendants h (snd e)))
            \<and> distinct xs"
proof (induction "length t - i" arbitrary: i)
  case 0
  then have le: "length t \<le> i" by simp
  have "\<forall>fuel \<ge> Suc 0. \<forall>arr. fs_find_r_loop fuel h d name i arr = Inr (arr @ [])"
  proof (intro allI impI)
    fix fuel :: nat and arr
    assume "Suc 0 \<le> fuel"
    then obtain f where "fuel = Suc f" by (cases fuel) simp_all
    with d le show "fs_find_r_loop fuel h d name i arr = Inr (arr @ [])"
      by (simp add: hashtable_iterate_at)
  qed
  moreover have "set [] = named h name (\<Union>e \<in> set (drop i t). insert (snd e) (descendants h (snd e)))"
    using le by (simp add: named_def)
  ultimately show ?case by (metis distinct.simps(1))
next
  case (Suc j)
  then have lt: "i < length t" and j: "j = length t - Suc i" by simp_all
  let ?c = "snd (t ! i)"
  let ?later = "\<Union>e \<in> set (drop (Suc i) t). insert (snd e) (descendants h (snd e))"
  from lt have mem: "t ! i \<in> set t" by simp
  from kids [OF mem] obtain cn where cn: "lookup h ?c = Some cn"
    and noself: "?c \<notin> descendants h ?c"
    and sub: "if node_type cn = Dir
         then \<exists>F xs. (\<forall>fuel \<ge> F. \<forall>arr. fs_find_r fuel h ?c name arr = Inr (arr @ xs))
                     \<and> set xs = named h name (descendants h ?c) \<and> distinct xs
         else descendants h ?c = {}"
    by blast
  from Suc.hyps(1) [OF j] obtain F2 xs2 where
    rest: "\<forall>fuel \<ge> F2. \<forall>arr. fs_find_r_loop fuel h d name (Suc i) arr = Inr (arr @ xs2)"
    and set2: "set xs2 = named h name ?later"
    and dist2: "distinct xs2"
    by blast
  let ?m = "if node_name cn = name then [?c] else []"
  have drop: "drop i t = t ! i # drop (Suc i) t"
    using lt by (simp add: Cons_nth_drop_Suc)
  have setm: "set ?m = named h name {?c}"
    using cn by (auto simp: named_def)
  have t_split: "t = take i t @ t ! i # drop (Suc i) t"
    using lt by (rule id_take_nth_drop)
  have keys: "fst (t ! i) \<notin> fst ` set (drop (Suc i) t)"
  proof -
    from dist t_split
    have "distinct (map fst (take i t @ t ! i # drop (Suc i) t))" by simp
    then show ?thesis by simp
  qed
  have apart: "insert ?c (descendants h ?c) \<inter> ?later = {}"
  proof -
    have "insert ?c (descendants h ?c) \<inter> insert (snd e) (descendants h (snd e)) = {}"
      if e: "e \<in> set (drop (Suc i) t)" for e
    proof -
      from e have et: "e \<in> set t" by (rule in_set_dropD)
      from e keys have "fst (t ! i) \<noteq> fst e" by auto
      from disj [OF mem et this] show ?thesis .
    qed
    then show ?thesis by blast
  qed
  have sub2: "set xs2 \<subseteq> ?later"
    using set2 named_subset by simp
  show ?case
  proof (cases "node_type cn = Dir")
    case True
    with sub obtain F1 xs1 where
      rec: "\<forall>fuel \<ge> F1. \<forall>arr. fs_find_r fuel h ?c name arr = Inr (arr @ xs1)"
      and set1: "set xs1 = named h name (descendants h ?c)"
      and dist1: "distinct xs1"
      by auto
    have "\<forall>fuel \<ge> Suc (max F1 F2). \<forall>arr.
            fs_find_r_loop fuel h d name i arr = Inr (arr @ (?m @ xs1 @ xs2))"
    proof (intro allI impI)
      fix fuel :: nat and arr
      assume "Suc (max F1 F2) \<le> fuel"
      then obtain f where f: "fuel = Suc f" "F1 \<le> f" "F2 \<le> f" by (cases fuel) simp_all
      from rec f(2) have 1: "fs_find_r f h ?c name (arr @ ?m) = Inr ((arr @ ?m) @ xs1)"
        by blast
      from rest f(3) have 2: "fs_find_r_loop f h d name (Suc i) ((arr @ ?m) @ xs1)
            = Inr (((arr @ ?m) @ xs1) @ xs2)"
        by blast
      have arr1: "(if node_name cn = name then arr @ [?c] else arr) = arr @ ?m" by simp
      show "fs_find_r_loop fuel h d name i arr = Inr (arr @ (?m @ xs1 @ xs2))"
        unfolding f(1) fs_find_r_loop.simps
        using d cn True lt 1 2
        by (simp add: hashtable_iterate_at arr1 Let_def del: fs_find_r.simps fs_find_r_loop.simps)
    qed
    moreover have "set (?m @ xs1 @ xs2)
        = named h name (\<Union>e \<in> set (drop i t). insert (snd e) (descendants h (snd e)))"
      unfolding drop using setm set1 set2 by (auto simp: named_def)
    moreover have "distinct (?m @ xs1 @ xs2)"
    proof -
      have sub1: "set xs1 \<subseteq> descendants h ?c" using set1 named_subset by simp
      have "set ?m \<inter> set xs1 = {}" using sub1 noself by auto
      moreover have "set ?m \<inter> set xs2 = {}" using sub2 apart by auto
      moreover have "set xs1 \<inter> set xs2 = {}" using sub1 sub2 apart by blast
      ultimately show ?thesis using dist1 dist2 by auto
    qed
    ultimately show ?thesis by blast
  next
    case False
    with sub have empty: "descendants h ?c = {}" by simp
    have "\<forall>fuel \<ge> Suc F2. \<forall>arr.
            fs_find_r_loop fuel h d name i arr = Inr (arr @ (?m @ xs2))"
    proof (intro allI impI)
      fix fuel :: nat and arr
      assume "Suc F2 \<le> fuel"
      then obtain f where f: "fuel = Suc f" "F2 \<le> f" by (cases fuel) simp_all
      from rest f(2) have 2: "fs_find_r_loop f h d name (Suc i) (arr @ ?m)
            = Inr ((arr @ ?m) @ xs2)"
        by blast
      have arr1: "(if node_name cn = name then arr @ [?c] else arr) = arr @ ?m" by simp
      show "fs_find_r_loop fuel h d name i arr = Inr (arr @ (?m @ xs2))"
        unfolding f(1) fs_find_r_loop.simps
        using d cn False lt 2
        by (simp add: hashtable_iterate_at arr1 Let_def del: fs_find_r.simps fs_find_r_loop.simps)
    qed
    moreover have "set (?m @ xs2)
        = named h name (\<Union>e \<in> set (drop i t). insert (snd e) (descendants h (snd e)))"
      unfolding drop using setm set2 empty by (auto simp: named_def)
    moreover have "distinct (?m @ xs2)"
    proof -
      have "set ?m \<inter> set xs2 = {}" using sub2 apart by auto
      then show ?thesis using dist2 by auto
    qed
    ultimately show ?thesis by blast
  qed
qed

lemma fs_find_r_total:
  assumes wf: "well_formed h root"
    and bound: "\<forall>a n. lookup h a = Some n \<longrightarrow> node_depth n \<le> D"
  shows "lookup h d = Some n \<Longrightarrow> node_payload n = Dirhash t \<Longrightarrow>
     \<exists>F xs. (\<forall>fuel \<ge> F. \<forall>arr. fs_find_r fuel h d name arr = Inr (arr @ xs))
            \<and> set xs = named h name (descendants h d) \<and> distinct xs"
proof (induction "D - node_depth n" arbitrary: d n t rule: less_induct)
  case less
  have dist: "distinct (map fst t)" by (rule wf_distinct [OF wf less.prems])
  have disj: "insert (snd e1) (descendants h (snd e1))
        \<inter> insert (snd e2) (descendants h (snd e2)) = {}"
    if "e1 \<in> set t" "e2 \<in> set t" "fst e1 \<noteq> fst e2" for e1 e2
  proof -
    from that(1,2) have "(fst e1, snd e1) \<in> set t" "(fst e2, snd e2) \<in> set t" by simp_all
    from subtrees_disjoint [OF wf less.prems this that(3)] show ?thesis .
  qed
  have kids: "\<exists>cn. lookup h (snd e) = Some cn
        \<and> snd e \<notin> descendants h (snd e) \<and>
        (if node_type cn = Dir
         then \<exists>F xs. (\<forall>fuel \<ge> F. \<forall>arr. fs_find_r fuel h (snd e) name arr = Inr (arr @ xs))
                     \<and> set xs = named h name (descendants h (snd e)) \<and> distinct xs
         else descendants h (snd e) = {})" if e: "e \<in> set t" for e
  proof -
    from e have "(fst e, snd e) \<in> set t" by simp
    from wf_entry [OF wf less.prems this] obtain cn where
      cn: "lookup h (snd e) = Some cn" "node_depth cn = node_depth n + 1"
      by blast
    from bound cn have "node_depth cn \<le> D" by blast
    with cn(2) have smaller: "D - node_depth cn < D - node_depth n" by simp
    have noself: "snd e \<notin> descendants h (snd e)" by (rule descendants_not_self [OF wf])
    show ?thesis
    proof (cases "node_type cn = Dir")
      case True
      with wf_tag [OF wf cn(1)] obtain t' where "node_payload cn = Dirhash t'" by blast
      from less.hyps [OF smaller cn(1) this] True cn(1) noself show ?thesis by simp
    next
      case False
      with wf_tag [OF wf cn(1)] obtain c where "node_payload cn = Content c"
        by (cases "node_type cn") auto
      from descendants_file [OF cn(1) this] False cn(1) noself show ?thesis by simp
    qed
  qed
  from fs_find_r_loop_total [OF less.prems dist disj kids, of 0] obtain F xs where
    loop: "\<forall>fuel \<ge> F. \<forall>arr. fs_find_r_loop fuel h d name 0 arr = Inr (arr @ xs)"
    and xs: "set xs = named h name (\<Union>e \<in> set t. insert (snd e) (descendants h (snd e)))"
    and dxs: "distinct xs"
    by auto
  have "\<forall>fuel \<ge> Suc F. \<forall>arr. fs_find_r fuel h d name arr = Inr (arr @ xs)"
  proof (intro allI impI)
    fix fuel :: nat and arr
    assume "Suc F \<le> fuel"
    then obtain f where "fuel = Suc f" "F \<le> f" by (cases fuel) simp_all
    with loop show "fs_find_r fuel h d name arr = Inr (arr @ xs)" by simp
  qed
  moreover from xs have "set xs = named h name (descendants h d)"
    by (simp only: descendants_unfold [OF less.prems])
  ultimately show ?case using dxs by blast
qed

text \<open>
  C5. In a well-formed tree, for every directory \<open>d\<close> and every name, \<open>fs_find_r\<close>
  started with an empty array returns, given enough fuel, a list whose elements are exactly
  the nodes below \<open>d\<close> that carry the name, each once: every such node of either kind,
  at every depth, also below a directory that itself carries the name. The claim is about
  the set of results; their order is that of the tables.
\<close>

theorem fs_find_r_exact:
  assumes "well_formed h root" and "lookup h d = Some n" and "node_type n = Dir"
  shows "\<exists>F res. (\<forall>fuel \<ge> F. fs_find_r fuel h d name [] = Inr res)
     \<and> set res = {c \<in> descendants h d. \<exists>cn. lookup h c = Some cn \<and> node_name cn = name}
     \<and> distinct res"
proof -
  from wf_tag [OF assms(1,2)] assms(3) obtain t where t: "node_payload n = Dirhash t"
    by blast
  obtain D where D: "\<forall>a n. lookup h a = Some n \<longrightarrow> node_depth n \<le> D"
    using depth_bound by blast
  from fs_find_r_total [OF assms(1) D assms(2) t, of name] obtain F xs where
    "\<forall>fuel \<ge> F. \<forall>arr. fs_find_r fuel h d name arr = Inr (arr @ xs)"
    "set xs = named h name (descendants h d)" "distinct xs"
    by blast
  then have "(\<forall>fuel \<ge> F. fs_find_r fuel h d name [] = Inr xs)
     \<and> set xs = {c \<in> descendants h d. \<exists>cn. lookup h c = Some cn \<and> node_name cn = name}
     \<and> distinct xs"
    by (simp add: named_def)
  then show ?thesis by blast
qed

theorem fs_find_r_exact_witness:
  "(\<exists>F res. (\<forall>fuel \<ge> F. fs_find_r fuel log_tree 0 ''log'' [] = Inr res)
     \<and> set res = {c \<in> descendants log_tree 0.
                    \<exists>cn. lookup log_tree c = Some cn \<and> node_name cn = ''log''}
     \<and> distinct res)
   \<and> fs_find_r 5 log_tree 0 ''log'' [] = Inr [1, 2]"
proof -
  let ?r = "\<lparr>node_name = [], node_depth = 1, node_parent = None, node_type = Dir,
            node_payload = Dirhash [(''log'', 1), (''f'', 3)]\<rparr>"
  have 1: "well_formed log_tree 0" by (rule example_heaps_wf)
  have 2: "lookup log_tree 0 = Some ?r" by (simp add: log_tree_def lookup_def)
  have 3: "node_type ?r = Dir" by simp
  have 4: "fs_find_r 5 log_tree 0 ''log'' [] = Inr [1, 2]"
    by (simp add: log_tree_def lookup_def hashtable_iterate_def eval_nat_numeral)
  from fs_find_r_exact [OF 1 2 3, of "''log''"] 4 show ?thesis by blast
qed


section \<open>Creation and writing keep the tree well formed\<close>

lemma hashtable_set_fresh:
  "hashtable_get t k = None \<Longrightarrow> hashtable_set t k v = t @ [(k, v)]"
  by (induction t k v rule: hashtable_set.induct)
     (auto simp: hashtable_get_def split: if_splits)

lemma hashtable_get_append_fresh:
  assumes "hashtable_get t k = None"
  shows "hashtable_get (t @ [(k, v)]) k' = (if k' = k then Some v else hashtable_get t k')"
  using hashtable_get_set [of t k v k'] hashtable_set_fresh [OF assms, of v] by simp

lemma fs_create_wf:
  assumes wf: "well_formed h root" and d: "lookup h d = Some p" "node_payload p = Dirhash t"
    and run: "fs_create lim h d name kind = Inr (0, h')"
  shows "well_formed h' root"
proof -
  have ok: "\<not> (hashtable_get t name \<noteq> None \<or> hashtable_get_size t \<ge> MAX_NODES lim
           \<or> length name > MAX_NAMELENGHT lim \<or> node_depth p \<ge> MAX_DEPTH lim)"
  proof
    assume "hashtable_get t name \<noteq> None \<or> hashtable_get_size t \<ge> MAX_NODES lim
           \<or> length name > MAX_NAMELENGHT lim \<or> node_depth p \<ge> MAX_DEPTH lim"
    from fs_create_fails [OF d this] run show False by simp
  qed
  then have fresh: "hashtable_get t name = None" by simp
  let ?c = "length h"
  let ?child = "\<lparr>node_name = name, node_depth = node_depth p + 1,
                   node_parent = Some d, node_type = kind,
                   node_payload = (case kind of Dir \<Rightarrow> Dirhash hashtable_create
                                   | File \<Rightarrow> Content [])\<rparr>"
  let ?t' = "t @ [(name, ?c)]"
  let ?p' = "p\<lparr>node_payload := Dirhash ?t'\<rparr>"
  from fs_create_succeeds [OF d ok, of kind] run hashtable_set_fresh [OF fresh, of ?c]
  have h': "h' = store (h @ [Some ?child]) d ?p'" by simp
  have d_lt: "d < length h" using d(1) by (rule lookup_length)
  have len: "length h' = Suc (length h)" by (simp add: h' store_def)
  have look: "lookup h' a = (if a = d then Some ?p' else if a = ?c then Some ?child else lookup h a)"
    for a
    using d_lt by (simp add: h' store_def lookup_update lookup_append)
  have d_ne: "d \<noteq> ?c" using d_lt by simp
  txt \<open>Every node of the old heap keeps its parent, name, depth and kind.\<close>
  have kept: "\<exists>n'. lookup h' a = Some n' \<and> node_parent n' = node_parent n
              \<and> node_name n' = node_name n \<and> node_depth n' = node_depth n
              \<and> node_type n' = node_type n
              \<and> (a \<noteq> d \<longrightarrow> n' = n)"
    if a: "lookup h a = Some n" for a n
  proof -
    from a have "a \<noteq> ?c" by (auto dest: lookup_length)
    with a d(1) show ?thesis by (auto simp: look)
  qed
  have root_ok: "case lookup h' root of None \<Rightarrow> False
       | Some r \<Rightarrow> node_parent r = None \<and> node_type r = Dir \<and> node_depth r = 1"
  proof -
    from wf obtain r where r: "lookup h root = Some r" "node_parent r = None" "node_type r = Dir"
      "node_depth r = 1"
      by (rule wf_root)
    from kept [OF r(1)] r show ?thesis by auto
  qed
  have root_lt: "root \<noteq> ?c"
  proof -
    from wf obtain r where "lookup h root = Some r" "node_parent r = None" "node_type r = Dir"
      "node_depth r = 1"
      by (rule wf_root)
    then show ?thesis by (auto dest: lookup_length)
  qed
  have dist_t: "distinct (map fst t)" by (rule wf_distinct [OF wf d])
  have p_dir: "node_type p = Dir" using wf_tag [OF wf d(1)] d(2) by simp
  txt \<open>An entry of an old table is still good.\<close>
  have old_entry: "entry_ok h' a n' e"
    if an: "lookup h a = Some n" and tn: "node_payload n = Dirhash tn" and e: "e \<in> set tn"
      and dn: "node_depth n' = node_depth n" for a n n' tn e
  proof -
    from e have "(fst e, snd e) \<in> set tn" by simp
    from wf_entry [OF wf an tn this] obtain cn where
      cn: "lookup h (snd e) = Some cn" "node_parent cn = Some a" "node_name cn = fst e"
      "node_depth cn = node_depth n + 1" .
    from kept [OF cn(1)] cn dn show ?thesis by (auto simp: entry_ok_def)
  qed
  have nodes_ok: "node_ok h' root a n'" if a: "lookup h' a = Some n'" for a n'
  proof -
    consider (new) "a = ?c" | (parent) "a = d" | (other) "a \<noteq> ?c" "a \<noteq> d" by blast
    then show ?thesis
    proof cases
      case new
      with a d_ne have n': "n' = ?child" by (simp add: look)
      have "hashtable_get ?t' name = Some ?c"
        using fresh by (simp add: hashtable_get_append_fresh)
      then show ?thesis
        using new root_lt d_ne
        by (cases kind) (simp_all add: n' node_ok_def look hashtable_create_def)
    next
      case parent
      with a have n': "n' = ?p'" by (simp add: look)
      have dist: "distinct (map fst ?t')"
        using dist_t fresh by (simp add: hashtable_get_None)
      have entries: "\<forall>e \<in> set ?t'. entry_ok h' a n' e"
      proof
        fix e
        assume "e \<in> set ?t'"
        then consider "e \<in> set t" | "e = (name, ?c)" by auto
        then show "entry_ok h' a n' e"
        proof cases
          case 1
          from old_entry [OF d 1, of n'] n' parent show ?thesis by simp
        next
          case 2
          with parent d_ne show ?thesis by (simp add: entry_ok_def look n')
        qed
      qed
      have par: "case node_parent n' of
           None \<Rightarrow> a = root
         | Some q \<Rightarrow>
             a \<noteq> root \<and>
             (case lookup h' q of
                None \<Rightarrow> False
              | Some qn \<Rightarrow>
                  (case node_payload qn of
                     Dirhash qt \<Rightarrow> hashtable_get qt (node_name n') = Some a
                   | Content c \<Rightarrow> False))"
      proof (cases "d = root")
        case True
        with wf_root_iff [OF wf d(1)] parent n' show ?thesis by simp
      next
        case False
        obtain q qn qt where
          q: "node_parent p = Some q" "lookup h q = Some qn" "node_payload qn = Dirhash qt"
          "node_type qn = Dir" "hashtable_get qt (node_name p) = Some d"
          "node_depth p = node_depth qn + 1" "q \<noteq> d"
          by (rule wf_parent [OF wf d(1) False])
        from q(2) have "q \<noteq> ?c" by (auto dest: lookup_length)
        with q False parent show ?thesis by (simp add: n' look)
      qed
      from p_dir dist entries par show ?thesis
        unfolding node_ok_def n' by (simp split: option.splits payload.splits)
    next
      case other
      with a have n: "lookup h a = Some n'" by (simp add: look)
      have ok: "node_ok h root a n'" by (rule wf_node_ok [OF wf n])
      have part1: "case node_payload n' of
         Dirhash t \<Rightarrow> node_type n' = Dir \<and> distinct (map fst t) \<and> (\<forall>e \<in> set t. entry_ok h' a n' e)
       | Content c \<Rightarrow> node_type n' = File"
      proof (cases "node_payload n'")
        case (Content c)
        with ok show ?thesis by (simp add: node_ok_def)
      next
        case (Dirhash tn)
        with ok have "node_type n' = Dir" "distinct (map fst tn)" by (simp_all add: node_ok_def)
        moreover have "\<forall>e \<in> set tn. entry_ok h' a n' e"
          using old_entry [OF n Dirhash] by simp
        ultimately show ?thesis using Dirhash by simp
      qed
      have part2: "case node_parent n' of
           None \<Rightarrow> a = root
         | Some q \<Rightarrow>
             a \<noteq> root \<and>
             (case lookup h' q of
                None \<Rightarrow> False
              | Some qn \<Rightarrow>
                  (case node_payload qn of
                     Dirhash qt \<Rightarrow> hashtable_get qt (node_name n') = Some a
                   | Content c \<Rightarrow> False))"
      proof (cases "a = root")
        case True
        with wf_root_iff [OF wf n] show ?thesis by simp
      next
        case False
        obtain q qn qt where
          q: "node_parent n' = Some q" "lookup h q = Some qn" "node_payload qn = Dirhash qt"
          "node_type qn = Dir" "hashtable_get qt (node_name n') = Some a"
          "node_depth n' = node_depth qn + 1" "q \<noteq> a"
          by (rule wf_parent [OF wf n False])
        from q(2) have q_lt: "q \<noteq> ?c" by (auto dest: lookup_length)
        show ?thesis
        proof (cases "q = d")
          case True
          with q(2,3) d have "qt = t" by simp
          with q(5) fresh have "hashtable_get ?t' (node_name n') = Some a"
            by (auto simp: hashtable_get_append_fresh)
          with True q(1) False show ?thesis by (simp add: look)
        next
          case qd: False
          with q q_lt False show ?thesis by (simp add: look)
        qed
      qed
      from part1 part2 show ?thesis by (simp add: node_ok_def)
    qed
  qed
  have "\<forall>a < length h'. case lookup h' a of None \<Rightarrow> True | Some n \<Rightarrow> node_ok h' root a n"
    using nodes_ok by (auto split: option.splits)
  with root_ok show ?thesis by (simp add: well_formed_def)
qed


lemma fs_set_file_content_wf:
  assumes wf: "well_formed h root" and a: "lookup h a = Some n" and ty: "node_type n = File"
  shows "well_formed (store h a (n\<lparr>node_payload := Content c\<rparr>)) root"
proof -
  let ?n' = "n\<lparr>node_payload := Content c\<rparr>"
  let ?h' = "store h a ?n'"
  have look: "lookup ?h' b = (if b = a then Some ?n' else lookup h b)" for b
    by (rule lookup_store [OF a])
  have len: "length ?h' = length h" by (simp add: store_def)
  from wf_tag [OF wf a] ty obtain c0 where c0: "node_payload n = Content c0" by blast
  have kept: "\<exists>n'. lookup ?h' b = Some n' \<and> node_parent n' = node_parent nb
              \<and> node_name n' = node_name nb \<and> node_depth n' = node_depth nb
              \<and> node_type n' = node_type nb
              \<and> (b \<noteq> a \<longrightarrow> n' = nb)"
    if b: "lookup h b = Some nb" for b nb
    using b a by (auto simp: look)
  have dir_same: "lookup ?h' q = Some qn"
    if "lookup h q = Some qn" "node_payload qn = Dirhash qt" for q qn qt
  proof -
    from that a c0 have "q \<noteq> a" by auto
    with that(1) show ?thesis by (simp add: look)
  qed
  have root_ok: "case lookup ?h' root of None \<Rightarrow> False
       | Some r \<Rightarrow> node_parent r = None \<and> node_type r = Dir \<and> node_depth r = 1"
  proof -
    from wf obtain r where r: "lookup h root = Some r" "node_parent r = None" "node_type r = Dir"
      "node_depth r = 1"
      by (rule wf_root)
    from kept [OF r(1)] r show ?thesis by auto
  qed
  have nodes_ok: "node_ok ?h' root b nb'" if b: "lookup ?h' b = Some nb'" for b nb'
  proof -
    obtain nb where nb: "lookup h b = Some nb" "node_parent nb' = node_parent nb"
      "node_name nb' = node_name nb" "b \<noteq> a \<longrightarrow> nb' = nb" "b = a \<longrightarrow> nb' = ?n'"
      using b a by (cases "b = a") (auto simp: look)
    have ok: "node_ok h root b nb" by (rule wf_node_ok [OF wf nb(1)])
    have part1: "case node_payload nb' of
         Dirhash t \<Rightarrow> node_type nb' = Dir \<and> distinct (map fst t) \<and> (\<forall>e \<in> set t. entry_ok ?h' b nb' e)
       | Content c \<Rightarrow> node_type nb' = File"
    proof (cases "b = a")
      case True
      with nb(5) ty show ?thesis by simp
    next
      case False
      with nb(4) have eq: "nb' = nb" by simp
      show ?thesis
      proof (cases "node_payload nb")
        case (Content c1)
        with ok eq show ?thesis by (simp add: node_ok_def)
      next
        case (Dirhash tn)
        with ok have "node_type nb = Dir" "distinct (map fst tn)" by (simp_all add: node_ok_def)
        moreover have "entry_ok ?h' b nb e" if e: "e \<in> set tn" for e
        proof -
          from e have "(fst e, snd e) \<in> set tn" by simp
          from wf_entry [OF wf nb(1) Dirhash this] obtain cn where
            cn: "lookup h (snd e) = Some cn" "node_parent cn = Some b" "node_name cn = fst e"
            "node_depth cn = node_depth nb + 1" .
          from kept [OF cn(1)] cn show ?thesis by (auto simp: entry_ok_def)
        qed
        ultimately show ?thesis using Dirhash eq by simp
      qed
    qed
    have part2: "case node_parent nb' of
           None \<Rightarrow> b = root
         | Some q \<Rightarrow>
             b \<noteq> root \<and>
             (case lookup ?h' q of
                None \<Rightarrow> False
              | Some qn \<Rightarrow>
                  (case node_payload qn of
                     Dirhash qt \<Rightarrow> hashtable_get qt (node_name nb') = Some b
                   | Content c \<Rightarrow> False))"
    proof (cases "b = root")
      case True
      with wf_root_iff [OF wf nb(1)] nb(2) show ?thesis by simp
    next
      case False
      obtain q qn qt where
        q: "node_parent nb = Some q" "lookup h q = Some qn" "node_payload qn = Dirhash qt"
        "node_type qn = Dir" "hashtable_get qt (node_name nb) = Some b"
        "node_depth nb = node_depth qn + 1" "q \<noteq> b"
        by (rule wf_parent [OF wf nb(1) False])
      from dir_same [OF q(2,3)] q False nb(2,3) show ?thesis by simp
    qed
    from part1 part2 show ?thesis by (simp add: node_ok_def)
  qed
  have "\<forall>b < length ?h'. case lookup ?h' b of None \<Rightarrow> True | Some n \<Rightarrow> node_ok ?h' root b n"
    using nodes_ok by (auto split: option.splits)
  with root_ok show ?thesis by (simp add: well_formed_def)
qed

section \<open>The resolver on a well-formed tree\<close>

lemma enter_tokens_wf:
  assumes wf: "well_formed h root"
  shows "lookup h s = Some sn \<Longrightarrow>
     \<exists>r nm. enter_tokens h capture s ts = Inr (r, nm)
       \<and> (case r of
            None \<Rightarrow> nm = None
          | Some a \<Rightarrow>
              (\<exists>an. lookup h a = Some an
                 \<and> (case nm of
                      None \<Rightarrow> a \<noteq> root \<or> (ts = [] \<and> a = s)
                    | Some name \<Rightarrow> capture \<and> (\<exists>t. node_payload an = Dirhash t))))"
proof (induction ts arbitrary: s sn)
  case Nil
  then show ?case by simp
next
  case (Cons t ts)
  have gt: "fs_get_type h s = Inr (node_type sn)"
    using Cons.prems by (simp add: fs_get_type_def)
  show ?case
  proof (cases "node_type sn = Dir")
    case False
    with gt show ?thesis by simp
  next
    case True
    with wf_tag [OF wf Cons.prems] obtain tb where tb: "node_payload sn = Dirhash tb" by blast
    have fd: "fs_find_in_dir h s t = Inr (hashtable_get tb t)"
      using Cons.prems tb by (simp add: fs_find_in_dir_def)
    show ?thesis
    proof (cases "hashtable_get tb t")
      case None
      with gt True fd Cons.prems tb show ?thesis by simp
    next
      case (Some c)
      then have "(t, c) \<in> set tb" by (rule hashtable_get_mem)
      from wf_entry [OF wf Cons.prems tb this] obtain cn where
        cn: "lookup h c = Some cn" "node_parent cn = Some s" .
      from cn(2) wf_root_iff [OF wf cn(1)] have c_nr: "c \<noteq> root" by auto
      from Cons.IH [OF cn(1)] obtain r nm where
        r: "enter_tokens h capture c ts = Inr (r, nm)"
        "case r of
            None \<Rightarrow> nm = None
          | Some a \<Rightarrow>
              (\<exists>an. lookup h a = Some an
                 \<and> (case nm of
                      None \<Rightarrow> a \<noteq> root \<or> (ts = [] \<and> a = c)
                    | Some name \<Rightarrow> capture \<and> (\<exists>t. node_payload an = Dirhash t)))"
        by blast
      have run: "enter_tokens h capture s (t # ts) = Inr (r, nm)"
        using gt True fd Some r(1) by simp
      from r(2) c_nr have "case r of
            None \<Rightarrow> nm = None
          | Some a \<Rightarrow>
              (\<exists>an. lookup h a = Some an
                 \<and> (case nm of
                      None \<Rightarrow> a \<noteq> root \<or> (t # ts = [] \<and> a = s)
                    | Some name \<Rightarrow> capture \<and> (\<exists>t. node_payload an = Dirhash t)))"
        by (auto split: option.splits)
      with run show ?thesis by blast
    qed
  qed
qed

lemma enter_path_wf:
  assumes wf: "well_formed h root"
  shows "\<exists>r nm. enter_path h root path capture olds = Inr (r, nm)
       \<and> (case r of
            None \<Rightarrow> nm = None
          | Some a \<Rightarrow>
              (\<exists>an. lookup h a = Some an
                 \<and> (case nm of
                      None \<Rightarrow> a \<noteq> root
                    | Some name \<Rightarrow> capture \<and> (\<exists>t. node_payload an = Dirhash t))))"
proof (cases "path_tokens path olds")
  case Nil
  then show ?thesis by (simp add: enter_path_tokens)
next
  case (Cons t ts)
  from wf obtain rn where rn: "lookup h root = Some rn" "node_parent rn = None"
    "node_type rn = Dir" "node_depth rn = 1"
    by (rule wf_root)
  from enter_tokens_wf [OF wf rn(1), of capture "t # ts"] obtain r nm where
    r: "enter_tokens h capture root (t # ts) = Inr (r, nm)"
    "case r of
            None \<Rightarrow> nm = None
          | Some a \<Rightarrow>
              (\<exists>an. lookup h a = Some an
                 \<and> (case nm of
                      None \<Rightarrow> a \<noteq> root \<or> (t # ts = [] \<and> a = root)
                    | Some name \<Rightarrow> capture \<and> (\<exists>t. node_payload an = Dirhash t)))"
    by blast
  from r(1) Cons have run: "enter_path h root path capture olds = Inr (r, nm)"
    by (simp add: enter_path_tokens)
  from r(2) have "case r of
            None \<Rightarrow> nm = None
          | Some a \<Rightarrow>
              (\<exists>an. lookup h a = Some an
                 \<and> (case nm of
                      None \<Rightarrow> a \<noteq> root
                    | Some name \<Rightarrow> capture \<and> (\<exists>t. node_payload an = Dirhash t)))"
    by (auto split: option.splits)
  with run show ?thesis by blast
qed


section \<open>The commands keep the tree well formed\<close>

lemma fs_delete_wf:
  assumes wf: "well_formed h root" and a: "lookup h a = Some n" and nr: "a \<noteq> root"
  shows "\<exists>r h'. fs_delete h a = Inr (r, h') \<and> well_formed h' root"
proof (cases "node_payload n")
  case (Content c)
  with wf_tag [OF wf a] have ty: "node_type n \<noteq> Dir" by auto
  from fs_free_file_removed [OF wf a nr Content] obtain h' where
    h': "fs_free_file h a = Inr h'" "subtree_removed h a h'"
    by blast
  from h'(1) a ty have "fs_delete h a = Inr (0, h')" by (simp add: fs_delete_def)
  with subtree_removed_wf [OF wf nr h'(2)] show ?thesis by blast
next
  case (Dirhash t)
  with wf_tag [OF wf a] have ty: "node_type n = Dir" by auto
  show ?thesis
  proof (cases "t = []")
    case True
    with Dirhash have "node_payload n = Dirhash []" by simp
    from fs_free_dir_removed [OF wf a nr this] obtain h' where
      h': "fs_free_dir h a = Inr (0, h')" "subtree_removed h a h'"
      by blast
    from h'(1) a ty have "fs_delete h a = Inr (0, h')" by (simp add: fs_delete_def)
    with subtree_removed_wf [OF wf nr h'(2)] show ?thesis by blast
  next
    case False
    with a ty Dirhash have "fs_delete h a = Inr (- 1, h)"
      by (simp add: fs_delete_def fs_free_dir_def hashtable_get_size_def)
    with wf show ?thesis by blast
  qed
qed

lemma fs_delete_r_wf:
  assumes wf: "well_formed h root" and a: "lookup h a = Some n" and nr: "a \<noteq> root"
  shows "\<exists>F h'. (\<forall>fuel \<ge> F. fs_delete_r fuel h a = Inr h') \<and> well_formed h' root"
proof -
  obtain D where D: "\<forall>a n. lookup h a = Some n \<longrightarrow> node_depth n \<le> D"
    using depth_bound by blast
  from fs_delete_r_total [OF wf D a nr] obtain F h' where
    "\<forall>fuel \<ge> F. fs_delete_r fuel h a = Inr h'" "subtree_removed h a h'"
    by blast
  with subtree_removed_wf [OF wf nr] show ?thesis by blast
qed

text \<open>On the root, \<open>fs_delete_r\<close> deletes the children and then reads through \<open>NULL\<close>.\<close>

lemma fs_delete_r_root:
  assumes wf: "well_formed h root"
  shows "\<exists>F. \<forall>fuel \<ge> F. fs_delete_r fuel h root = Inl NullDeref"
proof -
  from wf obtain r where r: "lookup h root = Some r" "node_parent r = None"
    "node_type r = Dir" "node_depth r = 1"
    by (rule wf_root)
  from wf_tag [OF wf r(1)] r(3) obtain t where t: "node_payload r = Dirhash t" by blast
  obtain D where D: "\<forall>a n. lookup h a = Some n \<longrightarrow> node_depth n \<le> D"
    using depth_bound by blast
  have loop: "\<exists>F h'. (\<forall>fuel \<ge> F. fs_delete_r_loop fuel h root = Inr h')
             \<and> children_removed h root h' \<and> well_formed h' root"
  proof (rule fs_delete_r_loop_total [where dx = "node_depth r" and D = D, OF _ wf D r(1) refl t])
    fix g :: heap and c cn
    assume "well_formed g root" "\<forall>a n. lookup g a = Some n \<longrightarrow> node_depth n \<le> D"
      "lookup g c = Some cn" "c \<noteq> root"
    then show "\<exists>F h'. (\<forall>fuel \<ge> F. fs_delete_r fuel g c = Inr h') \<and> subtree_removed g c h'"
      by (rule fs_delete_r_total)
  qed
  have "\<exists>F h1. (\<forall>fuel \<ge> F.
            (if hashtable_get_size t > 0 then fs_delete_r_loop fuel h root else Inr h) = Inr h1)
          \<and> children_removed h root h1"
  proof (cases "t = []")
    case True
    with t have "node_payload r = Dirhash []" by simp
    from children_removed_none [OF r(1) this] True show ?thesis
      by (auto simp: hashtable_get_size_def)
  next
    case False
    from loop False show ?thesis
      by (auto simp: hashtable_get_size_def)
  qed
  then obtain F1 h1 where
    run1: "\<forall>fuel \<ge> F1.
            (if hashtable_get_size t > 0 then fs_delete_r_loop fuel h root else Inr h) = Inr h1"
    and cr: "children_removed h root h1"
    by blast
  from cr r(1) have r1: "lookup h1 root = Some (r\<lparr>node_payload := Dirhash []\<rparr>)"
    by (auto simp: children_removed_def)
  then have free: "fs_free_dir h1 root = Inl NullDeref"
    using r(2) by (simp add: fs_free_dir_def hashtable_get_size_def)
  have "\<forall>fuel \<ge> Suc F1. fs_delete_r fuel h root = Inl NullDeref"
  proof (intro allI impI)
    fix fuel :: nat
    assume "Suc F1 \<le> fuel"
    then obtain f where f: "fuel = Suc f" "F1 \<le> f" by (cases fuel) simp_all
    from run1 f(2)
    have 1: "(if hashtable_get_size t > 0 then fs_delete_r_loop f h root else Inr h) = Inr h1"
      by blast
    show "fs_delete_r fuel h root = Inl NullDeref"
      unfolding f(1) fs_delete_r.simps
      using r(1,3) t 1 free
      by (simp del: fs_delete_r.simps fs_delete_r_loop.simps)
  qed
  then show ?thesis ..
qed

lemma do_delete_wf:
  assumes wf: "well_formed h root"
  shows "\<exists>F. \<forall>fuel \<ge> F. \<exists>resp h'.
           do_delete fuel h root recursive olds = Inr (resp, h') \<and> well_formed h' root"
proof -
  from enter_path_wf [OF wf, of None False olds] obtain r nm where
    ep: "enter_path h root None False olds = Inr (r, nm)"
    and r: "case r of
            None \<Rightarrow> nm = None
          | Some a \<Rightarrow>
              (\<exists>an. lookup h a = Some an
                 \<and> (case nm of
                      None \<Rightarrow> a \<noteq> root
                    | Some name \<Rightarrow> False \<and> (\<exists>t. node_payload an = Dirhash t)))"
    by blast
  show ?thesis
  proof (cases r)
    case None
    with ep wf have "\<forall>fuel \<ge> 0. \<exists>resp h'.
           do_delete fuel h root recursive olds = Inr (resp, h') \<and> well_formed h' root"
      by (simp add: do_delete_def)
    then show ?thesis ..
  next
    case (Some a)
    with r obtain an where a: "lookup h a = Some an" "a \<noteq> root"
      by (auto split: option.splits)
    show ?thesis
    proof (cases recursive)
      case True
      from fs_delete_r_wf [OF wf a] obtain F h' where
        run: "\<forall>fuel \<ge> F. fs_delete_r fuel h a = Inr h'" and wf': "well_formed h' root"
        by blast
      have "\<forall>fuel \<ge> F. \<exists>resp h'.
           do_delete fuel h root recursive olds = Inr (resp, h') \<and> well_formed h' root"
        using ep Some True run wf' by (simp add: do_delete_def)
      then show ?thesis ..
    next
      case False
      from fs_delete_wf [OF wf a] obtain res h' where
        run: "fs_delete h a = Inr (res, h')" and wf': "well_formed h' root"
        by blast
      have "\<forall>fuel \<ge> 0. \<exists>resp h'.
           do_delete fuel h root recursive olds = Inr (resp, h') \<and> well_formed h' root"
        using ep Some False run wf' by (simp add: do_delete_def)
      then show ?thesis ..
    qed
  qed
qed

lemma do_create_wf:
  assumes wf: "well_formed h root"
  shows "\<exists>resp h'. do_create lim h root type olds = Inr (resp, h') \<and> well_formed h' root"
proof -
  from enter_path_wf [OF wf, of None True olds] obtain r nm where
    ep: "enter_path h root None True olds = Inr (r, nm)"
    and r: "case r of
            None \<Rightarrow> nm = None
          | Some a \<Rightarrow>
              (\<exists>an. lookup h a = Some an
                 \<and> (case nm of
                      None \<Rightarrow> a \<noteq> root
                    | Some name \<Rightarrow> True \<and> (\<exists>t. node_payload an = Dirhash t)))"
    by blast
  show ?thesis
  proof (cases nm)
    case None
    with ep wf show ?thesis by (simp add: do_create_def)
  next
    case (Some name)
    with r obtain d p t where d: "r = Some d" "lookup h d = Some p" "node_payload p = Dirhash t"
      by (auto split: option.splits)
    show ?thesis
    proof (cases "hashtable_get t name \<noteq> None \<or> hashtable_get_size t \<ge> MAX_NODES lim
           \<or> length name > MAX_NAMELENGHT lim \<or> node_depth p \<ge> MAX_DEPTH lim")
      case True
      from fs_create_fails [OF d(2,3) True] ep Some d(1) wf show ?thesis
        by (simp add: do_create_def)
    next
      case False
      from fs_create_succeeds [OF d(2,3) False, of type] obtain h' where
        run: "fs_create lim h d name type = Inr (0, h')"
        by simp
      from fs_create_wf [OF wf d(2,3) run] have "well_formed h' root" .
      with run ep Some d(1) show ?thesis by (simp add: do_create_def)
    qed
  qed
qed

lemma do_write_wf:
  assumes wf: "well_formed h root"
  shows "\<exists>resp h'. do_write h root olds = Inr (resp, h') \<and> well_formed h' root"
proof -
  obtain path olds1 where s1: "strtok None delim_blank olds = (path, olds1)"
    by (cases "strtok None delim_blank olds")
  obtain new_content olds2 where s2: "strtok None delim_quote olds1 = (new_content, olds2)"
    by (cases "strtok None delim_quote olds1")
  from enter_path_wf [OF wf, of path False olds2] obtain r nm where
    ep: "enter_path h root path False olds2 = Inr (r, nm)"
    and r: "case r of
            None \<Rightarrow> nm = None
          | Some a \<Rightarrow>
              (\<exists>an. lookup h a = Some an
                 \<and> (case nm of
                      None \<Rightarrow> a \<noteq> root
                    | Some name \<Rightarrow> False \<and> (\<exists>t. node_payload an = Dirhash t)))"
    by blast
  show ?thesis
  proof (cases r)
    case None
    with s1 s2 ep wf show ?thesis by (simp add: do_write_def)
  next
    case (Some a)
    with r obtain an where a: "lookup h a = Some an" by (auto split: option.splits)
    show ?thesis
    proof (cases new_content)
      case None
      with s1 s2 ep Some wf show ?thesis by (simp add: do_write_def)
    next
      case content: (Some c)
      show ?thesis
      proof (cases "node_type an = File")
        case False
        with a have "fs_set_file_content h a (Own c) = Inr (- 1, h)"
          by (simp add: fs_set_file_content_def fs_get_type_def)
        with s1 s2 ep Some content wf show ?thesis by (simp add: do_write_def)
      next
        case True
        with wf_tag [OF wf a] obtain c0 where "node_payload an = Content c0" by blast
        with a True have "fs_set_file_content h a (Own c)
            = Inr (0, store h a (an\<lparr>node_payload := Content c\<rparr>))"
          by (simp add: fs_set_file_content_def fs_get_type_def my_strdup_def)
        with s1 s2 ep Some content fs_set_file_content_wf [OF wf a True, of c] show ?thesis
          by (simp add: do_write_def)
      qed
    qed
  qed
qed

text \<open>
  C10. Deletion needs a node with a parent. \<open>fs_free_file\<close>, and \<open>fs_free_dir\<close> on an
  empty directory, read the table of \<open>node->parent\<close> without a test: on a node whose parent
  is \<open>NULL\<close> they fault, and so does \<open>fs_delete_r\<close> on the root of a well-formed tree,
  after it has deleted the children. The command layer keeps the precondition: on a
  well-formed tree \<open>enter_path\<close> without capture never faults and never returns the root
  (on a path without components it returns \<open>NULL\<close>), so \<open>do_delete\<close>, recursive or not,
  always answers and leaves a well-formed tree, in which the root is still allocated; the
  other two handlers that write to the tree, \<open>do_create\<close> and \<open>do_write\<close>, do so too.
\<close>

theorem deletion_requires_parent:
  assumes "well_formed h root"
  shows "(\<forall>g a n c. lookup g a = Some n \<and> node_parent n = None \<and> node_payload n = Content c
            \<longrightarrow> fs_free_file g a = Inl NullDeref)
   \<and> (\<forall>g a n. lookup g a = Some n \<and> node_parent n = None \<and> node_payload n = Dirhash []
            \<longrightarrow> fs_free_dir g a = Inl NullDeref)
   \<and> (\<exists>F. \<forall>fuel \<ge> F. fs_delete_r fuel h root = Inl NullDeref)
   \<and> (\<forall>path olds. \<exists>r. enter_path h root path False olds = Inr (r, None) \<and> r \<noteq> Some root)
   \<and> (\<forall>recursive olds. \<exists>F. \<forall>fuel \<ge> F. \<exists>resp h'.
          do_delete fuel h root recursive olds = Inr (resp, h') \<and> well_formed h' root)
   \<and> (\<forall>lim type olds. \<exists>resp h'.
          do_create lim h root type olds = Inr (resp, h') \<and> well_formed h' root)
   \<and> (\<forall>olds. \<exists>resp h'. do_write h root olds = Inr (resp, h') \<and> well_formed h' root)"
proof (intro conjI allI impI)
  fix g :: heap and a n c
  assume "lookup g a = Some n \<and> node_parent n = None \<and> node_payload n = Content c"
  then show "fs_free_file g a = Inl NullDeref"
    by (simp add: fs_free_file_def)
next
  fix g :: heap and a n
  assume "lookup g a = Some n \<and> node_parent n = None \<and> node_payload n = Dirhash []"
  then show "fs_free_dir g a = Inl NullDeref"
    by (simp add: fs_free_dir_def hashtable_get_size_def)
next
  show "\<exists>F. \<forall>fuel \<ge> F. fs_delete_r fuel h root = Inl NullDeref"
    by (rule fs_delete_r_root [OF assms])
next
  fix path olds
  from enter_path_wf [OF assms, of path False olds] obtain r nm where
    ep: "enter_path h root path False olds = Inr (r, nm)"
    and r: "case r of
            None \<Rightarrow> nm = None
          | Some a \<Rightarrow>
              (\<exists>an. lookup h a = Some an
                 \<and> (case nm of
                      None \<Rightarrow> a \<noteq> root
                    | Some name \<Rightarrow> False \<and> (\<exists>t. node_payload an = Dirhash t)))"
    by blast
  from r have "nm = None \<and> r \<noteq> Some root" by (auto split: option.splits)
  with ep show "\<exists>r. enter_path h root path False olds = Inr (r, None) \<and> r \<noteq> Some root"
    by blast
next
  fix recursive olds
  show "\<exists>F. \<forall>fuel \<ge> F. \<exists>resp h'.
          do_delete fuel h root recursive olds = Inr (resp, h') \<and> well_formed h' root"
    by (rule do_delete_wf [OF assms])
next
  fix lim type olds
  show "\<exists>resp h'. do_create lim h root type olds = Inr (resp, h') \<and> well_formed h' root"
    by (rule do_create_wf [OF assms])
next
  fix olds
  show "\<exists>resp h'. do_write h root olds = Inr (resp, h') \<and> well_formed h' root"
    by (rule do_write_wf [OF assms])
qed

theorem deletion_requires_parent_witness:
  "(\<exists>F. \<forall>fuel \<ge> F. fs_delete_r fuel log_tree 0 = Inl NullDeref)
   \<and> (\<exists>r. enter_path log_tree 0 (Some ''/'') False [] = Inr (r, None) \<and> r \<noteq> Some 0)
   \<and> (\<exists>F. \<forall>fuel \<ge> F. \<exists>resp h'.
          do_delete fuel log_tree 0 True ''/log'' = Inr (resp, h') \<and> well_formed h' 0)
   \<and> fs_free_dir root_only 0 = Inl NullDeref"
proof -
  have wf: "well_formed log_tree 0" by (rule example_heaps_wf)
  have r: "lookup root_only 0 = Some \<lparr>node_name = [], node_depth = 1, node_parent = None,
      node_type = Dir, node_payload = Dirhash []\<rparr>
    \<and> node_parent \<lparr>node_name = [], node_depth = 1, node_parent = None,
      node_type = Dir, node_payload = Dirhash []\<rparr> = None
    \<and> node_payload \<lparr>node_name = [], node_depth = 1, node_parent = None,
      node_type = Dir, node_payload = Dirhash []\<rparr> = Dirhash []"
    by (simp add: root_only_def lookup_def)
  from deletion_requires_parent [OF wf] r show ?thesis by blast
qed

end
